theory Spec2Isabelle
  imports Complex_Main "HOL-Library.Log_Nat"
begin

section \<open>Machine numbers\<close>

text \<open>
  Go's \<open>int64\<close> is modelled as \<open>int\<close> with the two's-complement wrap-around written
  out wherever the source adds to a value that other code or the network controls.
  \<open>AddInt64\<close> is \<open>atomic.AddInt64\<close>: one indivisible wrapping addition to the shared cell.
\<close>

definition wrap64 :: "int \<Rightarrow> int" where
  "wrap64 x = (x + 2 ^ 63) mod 2 ^ 64 - 2 ^ 63"

definition wrap32 :: "int \<Rightarrow> int" where
  "wrap32 x = (x + 2 ^ 31) mod 2 ^ 32 - 2 ^ 31"

definition AddInt64 :: "int \<Rightarrow> int \<Rightarrow> int" where
  "AddInt64 s d = wrap64 (s + d)"

text \<open>Go's integer division and remainder truncate towards zero.\<close>

definition go_quot :: "int \<Rightarrow> int \<Rightarrow> int" where
  "go_quot a b = sgn a * sgn b * (\<bar>a\<bar> div \<bar>b\<bar>)"

definition go_rem :: "int \<Rightarrow> int \<Rightarrow> int" where
  "go_rem a b = a - b * go_quot a b"

subsection \<open>float64\<close>

text \<open>
  A finite \<open>float64\<close> is modelled by the rational it denotes (the two zeros are
  identified). \<open>f64_round q\<close> is the IEEE 754 binary64 value nearest to \<open>q\<close>, ties to
  the even significand, with 53 bits of precision, gradual underflow below \<open>2^-1022\<close> and
  an exponent that is not bounded above: by the IEEE rule the operation overflows to an
  infinity exactly when this value reaches \<open>2^1024\<close>, which \<open>f64_overflow\<close> tests.
\<close>

definition round_half_even :: "rat \<Rightarrow> int" where
  "round_half_even m =
     (let f = \<lfloor>m\<rfloor>; d = m - of_int f
      in if d < 1 / 2 then f else if 1 / 2 < d then f + 1 else if even f then f else f + 1)"

definition pow2 :: "int \<Rightarrow> rat" where
  "pow2 e = (if 0 \<le> e then of_int (2 ^ nat e) else 1 / of_int (2 ^ nat (- e)))"

definition ilog2 :: "rat \<Rightarrow> int" where
  \<comment> \<open>for \<open>0 < q\<close>: the \<open>e\<close> with \<open>2^e \<le> q < 2^(e+1)\<close>\<close>
  "ilog2 q =
     (case quotient_of q of (a, b) \<Rightarrow>
        let e = bitlen a - bitlen b
        in if (if 0 \<le> e then b * 2 ^ nat e \<le> a else b \<le> a * 2 ^ nat (- e)) then e else e - 1)"

definition f64_round :: "rat \<Rightarrow> rat" where
  "f64_round q =
     (if q = 0 then 0
      else let u = max (ilog2 \<bar>q\<bar> - 52) (- 1074)
           in sgn q * of_int (round_half_even (\<bar>q\<bar> / pow2 u)) * pow2 u)"

definition f64_overflow :: "rat \<Rightarrow> bool" where
  "f64_overflow q = (of_int (2 ^ 1024) \<le> \<bar>f64_round q\<bar>)"

text \<open>
  The conversion from an integer and the arithmetic operations round the exact result.
  They are used where the result is finite: the engine's operands come from \<open>int64\<close>
  values and its only divisor is positive, and \<open>ParseSize\<close> tests \<open>f64_overflow\<close> before
  it uses a product.
\<close>

definition f64_of_int :: "int \<Rightarrow> rat" where
  "f64_of_int i = f64_round (of_int i)"

definition f64_add :: "rat \<Rightarrow> rat \<Rightarrow> rat" where
  "f64_add a b = f64_round (a + b)"

definition f64_mul :: "rat \<Rightarrow> rat \<Rightarrow> rat" where
  "f64_mul a b = f64_round (a * b)"

definition f64_div :: "rat \<Rightarrow> rat \<Rightarrow> rat" where
  "f64_div a b = f64_round (a / b)"

section \<open>Package transfer: the throughput engine\<close>

datatype Direction = Download | Upload

record Result =
  Direction :: Direction
  Threads :: int
  TotalBytes :: int
  Duration :: int
  Mbps :: rat
  FaultCount :: int
  HadFault :: bool

text \<open>
  What the network does is the input of the model. A worker never reads the shared
  counter, it only adds to it, so a worker is modelled as a function from its network
  outcome to \<open>(bytes, fault, deltas)\<close>: the two values the Go function returns and the
  list of the atomic additions it applied to \<open>*shared\<close>, in program order.
\<close>

datatype read_err = EOF | ReadFailure

text \<open>
  A response body, as the read loop sees it: the sizes returned by the \<open>Read\<close> calls
  that come back with a nil error, then the \<open>Read\<close> that returns a non-nil error
  (\<open>io.EOF\<close> at the end of the stream, anything else a failure) together with its own
  byte count. The per-attempt deadline makes every body end this way.
\<close>

datatype body = Body (reads: "nat list") (last_n: nat) (last_err: read_err)

datatype get_outcome =
    GetRequestError
  | GetTransportError
  | GetResponse int body

definition count_chunk :: "nat \<Rightarrow> int \<Rightarrow> int \<times> int list" where
  \<comment> \<open>\<open>if n > 0 { total += int64(n); atomic.AddInt64(shared, int64(n)) }\<close>\<close>
  "count_chunk n tot = (if 0 < n then (wrap64 (tot + int n), [int n]) else (tot, []))"

fun download_loop :: "int \<Rightarrow> int \<Rightarrow> nat list \<Rightarrow> nat \<Rightarrow> read_err \<Rightarrow> int \<times> bool \<times> int list" where
  "download_loop maxBytes tot [] fin_n fin_err =
     (case count_chunk fin_n tot of (tot', ds) \<Rightarrow>
        if maxBytes \<le> tot' then (tot', False, ds)
        else (tot', fin_err \<noteq> EOF, ds))"
| "download_loop maxBytes tot (n # ns) fin_n fin_err =
     (case count_chunk n tot of (tot', ds) \<Rightarrow>
        if maxBytes \<le> tot' then (tot', False, ds)
        else (case download_loop maxBytes tot' ns fin_n fin_err of
                (t, fault, ds') \<Rightarrow> (t, fault, ds @ ds')))"

text \<open>
  The outcome of the GET: \<open>http.NewRequestWithContext\<close> fails, \<open>client.Do\<close> fails, or a
  response arrives with a status and a body.
\<close>

fun doDownload :: "get_outcome \<Rightarrow> int \<Rightarrow> int \<times> bool \<times> int list" where
  "doDownload GetRequestError maxBytes = (0, True, [])"
| "doDownload GetTransportError maxBytes = (0, True, [])"
| "doDownload (GetResponse status (Body ns fin_n fin_err)) maxBytes =
     (if 400 \<le> status then (0, True, [])
      else download_loop maxBytes 0 ns fin_n fin_err)"

text \<open>
  The upload body. \<open>rd_remaining\<close> is \<open>zeroReader.remaining\<close>, \<open>rd_count\<close> is
  \<open>countingReader.count\<close>. Neither can overflow: every \<open>n\<close> taken from \<open>remaining\<close> is
  at most \<open>remaining\<close>, and \<open>count\<close> grows by what \<open>remaining\<close> loses.
\<close>

record reader =
  rd_remaining :: int
  rd_count :: int

definition zeroReader_Read :: "int \<Rightarrow> nat \<Rightarrow> nat \<times> read_err option \<times> int" where
  "zeroReader_Read remaining len_p =
     (if remaining \<le> 0 then (0, Some EOF, remaining)
      else let n = (if remaining < int len_p then remaining else int len_p)
           in (nat n, None, remaining - n))"

definition countingReader_Read :: "reader \<Rightarrow> nat \<Rightarrow> (nat \<times> read_err option) \<times> reader \<times> int list" where
  "countingReader_Read c len_p =
     (case zeroReader_Read (rd_remaining c) len_p of (n, err, remaining') \<Rightarrow>
        if 0 < n
        then ((n, err), \<lparr>rd_remaining = remaining', rd_count = rd_count c + int n\<rparr>, [int n])
        else ((n, err), c\<lparr>rd_remaining := remaining'\<rparr>, []))"

text \<open>
  The transport reads the request body by calling \<open>cr.Read\<close> with buffers of its own
  choosing; \<open>send_body\<close> serves the calls it makes, given the buffer lengths in order.
\<close>

fun send_body :: "reader \<Rightarrow> nat list \<Rightarrow> reader \<times> int list" where
  "send_body c [] = (c, [])"
| "send_body c (len_p # ps) =
     (case countingReader_Read c len_p of (_, c', ds) \<Rightarrow>
        (case send_body c' ps of (c'', ds') \<Rightarrow> (c'', ds @ ds')))"

text \<open>
  The outcome of \<open>client.Do\<close> for the PUT: the request could not be built; the call
  failed; or it returned a response with the given status. The transport reads the
  request body from a goroutine of its own and \<open>doUpload\<close> never waits for it: calls of
  \<open>cr.Read\<close> may still arrive after \<open>client.Do\<close> has returned and after
  \<open>cr.count.Load()\<close>. An outcome therefore carries two lists of buffer lengths: the
  reads that \<open>cr.count.Load()\<close> sees, and the reads that come after it. The source
  does not order the rollback and the later additions; the log lists the rollback
  first, and the counter read at the end, a sum, is the same for either order.
\<close>

datatype put_outcome =
    PutRequestError
  | PutTransportError "nat list" "nat list"
  | PutResponse int "nat list" "nat list"

fun doUpload :: "put_outcome \<Rightarrow> int \<Rightarrow> int \<times> bool \<times> int list" where
  "doUpload PutRequestError maxBytes = (0, True, [])"
| "doUpload (PutTransportError ps late) maxBytes =
     (case send_body \<lparr>rd_remaining = maxBytes, rd_count = 0\<rparr> ps of
        (cr, ds) \<Rightarrow>
          (case send_body cr late of
             (cr', ds') \<Rightarrow> (rd_count cr, True, ds @ ds')))"
| "doUpload (PutResponse status ps late) maxBytes =
     (case send_body \<lparr>rd_remaining = maxBytes, rd_count = 0\<rparr> ps of
        (cr, ds) \<Rightarrow>
          (case send_body cr late of
             (cr', ds') \<Rightarrow>
               if 400 \<le> status then (let sent = rd_count cr in (0, True, ds @ [- sent] @ ds'))
               else (rd_count cr, False, ds @ ds')))"

text \<open>
  The engine. The context, the HTTP client, the URL and \<open>cfg.Timeout\<close> act on a run only
  through what the network does, which is the record \<open>net\<close>: \<open>net_get i\<close> and
  \<open>net_put i\<close> are what happens to worker \<open>i\<close>; \<open>net_sched\<close> is the order in which the
  scheduler lets the workers perform their atomic additions (worker indices; an entry
  naming a finished worker is a no-op); \<open>net_elapsed\<close> is \<open>time.Since(start)\<close> in
  nanoseconds at the final aggregation. \<open>Run\<close> takes \<open>cfg.MaxBytes\<close> as \<open>maxBytes\<close>. The
  progress sampler only loads the counter and writes to the bus; it has no part in the
  \<open>Result\<close>. \<open>wg.Wait()\<close> returns when every worker has finished, so whatever the
  schedule leaves pending is performed before the counter is read.
\<close>

record net =
  net_get :: "nat \<Rightarrow> get_outcome"
  net_put :: "nat \<Rightarrow> put_outcome"
  net_sched :: "nat list"
  net_elapsed :: int

fun interleave :: "nat list \<Rightarrow> int list list \<Rightarrow> int \<Rightarrow> int" where
  "interleave [] pending s = foldl AddInt64 s (concat pending)"
| "interleave (i # sched) pending s =
     (if i < length pending
      then (case pending ! i of
              [] \<Rightarrow> interleave sched pending s
            | d # ds \<Rightarrow> interleave sched (pending[i := ds]) (AddInt64 s d))
      else interleave sched pending s)"

definition Seconds :: "int \<Rightarrow> rat" where
  \<comment> \<open>\<open>time.Duration.Seconds\<close>: \<open>float64(d / Second) + float64(d % Second) / 1e9\<close>\<close>
  "Seconds d =
     f64_add (f64_of_int (go_quot d 1000000000))
             (f64_div (f64_of_int (go_rem d 1000000000)) 1000000000)"

definition elapsed_seconds :: "int \<Rightarrow> rat" where
  \<comment> \<open>\<open>secs := dur.Seconds(); if secs <= 0 { secs = 1 }\<close>\<close>
  "elapsed_seconds dur = (let secs = Seconds dur in if secs \<le> 0 then 1 else secs)"

definition run_worker :: "net \<Rightarrow> Direction \<Rightarrow> int \<Rightarrow> nat \<Rightarrow> int \<times> bool \<times> int list" where
  "run_worker nw dir maxBytes i =
     (if dir = Download then doDownload (net_get nw i) maxBytes
      else doUpload (net_put nw i) maxBytes)"

definition Run :: "net \<Rightarrow> int \<Rightarrow> Direction \<Rightarrow> int \<Rightarrow> Result" where
  "Run nw maxBytes dir threads =
     (let ws = map (run_worker nw dir maxBytes) [0 ..< nat threads];
          faultCount = wrap32 (int (length (filter (\<lambda>w. fst (snd w)) ws)));
          tot = interleave (net_sched nw) (map (\<lambda>w. snd (snd w)) ws) 0;
          dur = net_elapsed nw;
          secs = elapsed_seconds dur;
          mbps = f64_div (f64_mul (f64_of_int tot) 8) (f64_mul secs 1000000);
          fc = faultCount
      in \<lparr>Direction = dir, Threads = threads, TotalBytes = tot, Duration = dur,
          Mbps = mbps, FaultCount = fc, HadFault = (0 < fc)\<rparr>)"

section \<open>Strings\<close>

text \<open>
  A Go string is a sequence of bytes: \<open>string\<close>, with \<open>of_char\<close> reading a byte's value.
  The library functions the packages call on strings are modelled on bytes, with the
  UTF-8 encodings of the non-ASCII runes they treat specially written out.
\<close>

definition isDigit :: "char \<Rightarrow> bool" where
  "isDigit c = (c \<in> set ''0123456789'')"

definition isWordChar :: "char \<Rightarrow> bool" where
  \<comment> \<open>the class \<open>\w\<close> of Go's \<open>regexp\<close>, which decides \<open>\b\<close>\<close>
  "isWordChar c =
     (c \<in> set ''0123456789ABCDEFGHIJKLMNOPQRSTUVWXYZ_abcdefghijklmnopqrstuvwxyz'')"

text \<open>
  The white space of \<open>unicode.IsSpace\<close>, as UTF-8: tab, LF, VT, FF, CR, space, U+0085,
  U+00A0, U+1680, U+2000 to U+200A, U+2028, U+2029, U+202F, U+205F and U+3000.
\<close>

definition space_runes :: "nat list list" where
  "space_runes =
     [[9], [10], [11], [12], [13], [32], [194, 133], [194, 160], [225, 154, 128],
      [226, 128, 128], [226, 128, 129], [226, 128, 130], [226, 128, 131], [226, 128, 132],
      [226, 128, 133], [226, 128, 134], [226, 128, 135], [226, 128, 136], [226, 128, 137],
      [226, 128, 138], [226, 128, 168], [226, 128, 169], [226, 128, 175], [226, 129, 159],
      [227, 128, 128]]"

definition space_width :: "bool \<Rightarrow> string \<Rightarrow> nat" where
  \<comment> \<open>the width of the white-space rune at the front of \<open>s\<close> (at the front of the
      reversed string when \<open>backwards\<close>), 0 when there is none\<close>
  "space_width backwards s =
     (let bytes = (\<lambda>k. let b = map of_char (take k s) in if backwards then rev b else b)
      in if bytes 1 \<in> set space_runes then 1
         else if bytes 2 \<in> set space_runes then 2
         else if bytes 3 \<in> set space_runes then 3
         else 0)"

fun trim_front :: "bool \<Rightarrow> string \<Rightarrow> string" where
  "trim_front backwards [] = []"
| "trim_front backwards (c # cs) =
     (let k = space_width backwards (c # cs)
      in if k = 0 then c # cs else trim_front backwards (drop (k - 1) cs))"

definition TrimSpace :: "string \<Rightarrow> string" where
  \<comment> \<open>\<open>strings.TrimSpace\<close>\<close>
  "TrimSpace s = rev (trim_front True (rev (trim_front False s)))"

fun decimal_value :: "int \<Rightarrow> string \<Rightarrow> int" where
  \<comment> \<open>\<open>n = n*10 + int(ch - '0')\<close> over the digits\<close>
  "decimal_value n [] = n"
| "decimal_value n (c # cs) = decimal_value (n * 10 + (of_char c - 48)) cs"

datatype atoi_error = ErrSyntax | ErrRange

definition Atoi :: "string \<Rightarrow> atoi_error + int" where
  \<comment> \<open>\<open>strconv.Atoi\<close> with a 64-bit \<open>int\<close>: an optional sign, then decimal digits\<close>
  "Atoi s =
     (let signed = (s \<noteq> [] \<and> (hd s = CHR ''-'' \<or> hd s = CHR ''+''));
          digits = (if signed then tl s else s)
      in if digits = [] \<or> \<not> list_all isDigit digits then Inl ErrSyntax
         else let n = (if hd s = CHR ''-'' then - decimal_value 0 digits
                       else decimal_value 0 digits)
              in if - (2 ^ 63) \<le> n \<and> n < 2 ^ 63 then Inr n else Inl ErrRange)"

section \<open>Package endpoint\<close>

record Endpoint =
  IP :: string
  Desc :: string

record IPInfo =
  Status :: string
  Query :: string
  AS :: string
  ISP :: string
  Org :: string
  City :: string
  RegionName :: string
  Country :: string

subsection \<open>The pattern \<open>ipv4Re\<close>\<close>

text \<open>
  \<open>ipv4Re\<close> is \<open>\b(?:\d{1,3}\.){3}\d{1,3}\b\<close>. The matcher below follows Go's
  leftmost-first semantics: each function returns the remainders of the input after its
  part of the pattern, in the order a backtracking matcher tries them (a greedy
  \<open>\d{1,3}\<close> tries three digits first), and the first complete alternative is the match.
\<close>

definition word_boundary :: "char option \<Rightarrow> string \<Rightarrow> bool" where
  \<comment> \<open>\<open>\b\<close> between the previous character (if any) and the rest of the input\<close>
  "word_boundary prev s =
     ((case prev of None \<Rightarrow> False | Some p \<Rightarrow> isWordChar p)
        \<noteq> (case s of [] \<Rightarrow> False | c # _ \<Rightarrow> isWordChar c))"

definition re_digits :: "string \<Rightarrow> string list" where
  \<comment> \<open>\<open>\d{1,3}\<close>\<close>
  "re_digits s = [drop k s. k \<leftarrow> [3, 2, 1], k \<le> length s, list_all isDigit (take k s)]"

definition re_dot :: "string \<Rightarrow> string list" where
  \<comment> \<open>\<open>\.\<close>\<close>
  "re_dot s = (case s of [] \<Rightarrow> [] | c # cs \<Rightarrow> if c = CHR ''.'' then [cs] else [])"

definition re_end_boundary :: "string \<Rightarrow> string \<Rightarrow> bool" where
  \<comment> \<open>the final \<open>\b\<close>: \<open>s\<close> is the input from the start of the match, \<open>r\<close> what is left\<close>
  "re_end_boundary s r =
     word_boundary (if length r < length s then Some (s ! (length s - length r - 1)) else None) r"

definition ipv4Re_match :: "char option \<Rightarrow> string \<Rightarrow> string option" where
  \<comment> \<open>the match of \<open>ipv4Re\<close> that starts at the front of \<open>s\<close>, if there is one\<close>
  "ipv4Re_match prev s =
     (if word_boundary prev s
      then (case [r7. r1 \<leftarrow> re_digits s, r2 \<leftarrow> re_dot r1, r3 \<leftarrow> re_digits r2, r4 \<leftarrow> re_dot r3,
                     r5 \<leftarrow> re_digits r4, r6 \<leftarrow> re_dot r5, r7 \<leftarrow> re_digits r6,
                     re_end_boundary s r7] of
              [] \<Rightarrow> None
            | r # _ \<Rightarrow> Some (take (length s - length r) s))
      else None)"

fun find_all :: "nat \<Rightarrow> char option \<Rightarrow> string \<Rightarrow> string list" where
  \<comment> \<open>successive non-overlapping matches; \<open>skip\<close> counts the characters of the last
      match that are still to be passed\<close>
  "find_all skip prev [] = []"
| "find_all skip prev (c # cs) =
     (if 0 < skip then find_all (skip - 1) (Some c) cs
      else (case ipv4Re_match prev (c # cs) of
              None \<Rightarrow> find_all 0 (Some c) cs
            | Some m \<Rightarrow> m # find_all (length m - 1) (Some c) cs))"

definition ipv4Re_FindAllString :: "string \<Rightarrow> string list" where
  \<comment> \<open>\<open>ipv4Re.FindAllString(s, -1)\<close>\<close>
  "ipv4Re_FindAllString s = find_all 0 None s"

subsection \<open>resolveDoH\<close>

text \<open>
  The two loops of \<open>resolveDoH\<close>, with \<open>seen\<close> the Go map (a missing key reads as
  \<open>false\<close>) and \<open>out\<close> the slice appended to. \<open>ParseIP_ok ip\<close> stands for
  \<open>net.ParseIP(ip) != nil\<close>.
\<close>

fun collect_answers :: "(string \<Rightarrow> bool) \<Rightarrow> string list \<Rightarrow> (string \<rightharpoonup> bool) \<Rightarrow> string list \<Rightarrow> string list" where
  "collect_answers ParseIP_ok [] seen out = out"
| "collect_answers ParseIP_ok (a # rest) seen out =
     (let ip = TrimSpace a
      in if ParseIP_ok ip \<and> seen ip \<noteq> Some True
         then collect_answers ParseIP_ok rest (seen(ip \<mapsto> True)) (out @ [ip])
         else collect_answers ParseIP_ok rest seen out)"

fun collect_matches :: "string list \<Rightarrow> (string \<rightharpoonup> bool) \<Rightarrow> string list \<Rightarrow> string list" where
  "collect_matches [] seen out = out"
| "collect_matches (ip # rest) seen out =
     (if seen ip \<noteq> Some True
      then collect_matches rest (seen(ip \<mapsto> True)) (out @ [ip])
      else collect_matches rest seen out)"

text \<open>
  What the DoH request does: it cannot be built, \<open>Do\<close> fails, or a body is read (its
  read error is ignored by the source). \<open>Unmarshal body\<close> stands for
  \<open>json.Unmarshal(body, &dr)\<close>: \<open>None\<close> for an error, otherwise the \<open>data\<close> fields of
  \<open>dr.Answer\<close> in order.
\<close>

datatype doh_outcome = DohRequestError | DohTransportError | DohBody string

fun resolveDoH :: "(string \<Rightarrow> string list option) \<Rightarrow> (string \<Rightarrow> bool) \<Rightarrow> doh_outcome \<Rightarrow> string list" where
  "resolveDoH Unmarshal ParseIP_ok DohRequestError = []"
| "resolveDoH Unmarshal ParseIP_ok DohTransportError = []"
| "resolveDoH Unmarshal ParseIP_ok (DohBody body) =
     (let out = (case Unmarshal body of
                   None \<Rightarrow> []
                 | Some answer \<Rightarrow>
                     if 0 < length answer then collect_answers ParseIP_ok answer Map.empty [] else [])
      in if 0 < length out then out
         else collect_matches (ipv4Re_FindAllString body) Map.empty [])"

text \<open>\<open>resolveSystem\<close>, the sibling path: the addresses of \<open>net.LookupHost\<close>, or its error.\<close>

fun first_dotted :: "(string \<Rightarrow> bool) \<Rightarrow> string list \<Rightarrow> string" where
  "first_dotted ParseIP_ok [] = []"
| "first_dotted ParseIP_ok (a # rest) =
     (if ParseIP_ok a \<and> CHR ''.'' \<in> set a then a else first_dotted ParseIP_ok rest)"

definition resolveSystem :: "(string \<Rightarrow> bool) \<Rightarrow> string list option \<Rightarrow> string" where
  "resolveSystem ParseIP_ok lookup =
     (case lookup of None \<Rightarrow> [] | Some addrs \<Rightarrow> first_dotted ParseIP_ok addrs)"

subsection \<open>fetchIPDesc\<close>

datatype geo_outcome =
    GeoRequestError
  | GeoTransportError
  | GeoDecodeError
  | GeoDecoded IPInfo

fun fetchIPDesc :: "geo_outcome \<Rightarrow> string" where
  "fetchIPDesc GeoRequestError = ''lookup failed''"
| "fetchIPDesc GeoTransportError = ''lookup failed''"
| "fetchIPDesc GeoDecodeError = ''lookup failed''"
| "fetchIPDesc (GeoDecoded info) =
     (if Status info \<noteq> ''success'' then ''lookup failed''
      else let loc = City info;
               loc = (if RegionName info \<noteq> [] \<and> RegionName info \<noteq> City info
                      then loc @ '', '' @ RegionName info else loc);
               loc = (if Country info \<noteq> [] then loc @ '', '' @ Country info else loc);
               loc = (if loc = [] then ''unknown location'' else loc);
               asn = AS info;
               asn = (if asn = [] then Org info else asn);
               loc = (if asn \<noteq> [] then loc @ '' ('' @ asn @ '')'' else loc)
           in loc)"

subsection \<open>promptChoice\<close>

definition invalid_selection :: "string \<Rightarrow> string" where
  \<comment> \<open>\<open>fmt.Sprintf("Invalid selection '%s', fallback to 1.", line)\<close>\<close>
  "invalid_selection line = ''Invalid selection '' @ [CHR 0x27] @ line @ [CHR 0x27] @ '', fallback to 1.''"

definition promptChoice :: "int \<Rightarrow> string \<Rightarrow> int \<times> string list" where
  \<comment> \<open>\<open>input\<close> is what \<open>ReadString\<close> returned; the result is the index and the warnings sent to the bus\<close>
  "promptChoice count input =
     (let line = TrimSpace input
      in if line = [] then (0, [])
         else (case Atoi line of
                 Inl err \<Rightarrow> (0, [invalid_selection line])
               | Inr n \<Rightarrow>
                   if n < 1 \<or> count < n then (0, [invalid_selection line])
                   else (n - 1, [])))"

section \<open>Package config: ParseSize\<close>

text \<open>
  \<open>sizeRe\<close> is \<open>(?i)^\s*([\d.]+)\s*([a-z]*)\s*$\<close>. Its character classes are pairwise
  disjoint, so a string matches in at most one way and the greedy scan below finds it.
  \<open>\s\<close> is tab, LF, FF, CR and space. Under \<open>(?i)\<close> the class \<open>[a-z]\<close> also holds the
  two runes that case-fold to a letter: U+017F (bytes C5 BF, folds to s) and U+212A, the
  Kelvin sign (bytes E2 84 AA, folds to k).
\<close>

definition re_space :: "char \<Rightarrow> bool" where
  "re_space c = (of_char c \<in> set [9, 10, 12, 13, 32 :: nat])"

definition re_number_char :: "char \<Rightarrow> bool" where
  "re_number_char c = (isDigit c \<or> c = CHR ''.'')"

definition isLetter :: "char \<Rightarrow> bool" where
  "isLetter c = (c \<in> set ''ABCDEFGHIJKLMNOPQRSTUVWXYZabcdefghijklmnopqrstuvwxyz'')"

fun unit_span :: "string \<Rightarrow> string \<times> string" where
  \<comment> \<open>the longest prefix matched by \<open>(?i)[a-z]*\<close>, and the rest\<close>
  "unit_span [] = ([], [])"
| "unit_span (c # cs) =
     (if isLetter c then (case unit_span cs of (u, r) \<Rightarrow> (c # u, r))
      else if map of_char (take 2 (c # cs)) = [197, 191 :: nat]
      then (case unit_span (drop 1 cs) of (u, r) \<Rightarrow> (take 2 (c # cs) @ u, r))
      else if map of_char (take 3 (c # cs)) = [226, 132, 170 :: nat]
      then (case unit_span (drop 2 cs) of (u, r) \<Rightarrow> (take 3 (c # cs) @ u, r))
      else ([], c # cs))"

definition sizeRe_FindStringSubmatch :: "string \<Rightarrow> (string \<times> string) option" where
  \<comment> \<open>the two groups \<open>m[1]\<close> and \<open>m[2]\<close>, or \<open>None\<close> for \<open>m == nil\<close>\<close>
  "sizeRe_FindStringSubmatch s =
     (let r1 = dropWhile re_space s;
          num = takeWhile re_number_char r1;
          r2 = dropWhile re_space (dropWhile re_number_char r1)
      in case unit_span r2 of (unit, r3) \<Rightarrow>
           if num \<noteq> [] \<and> dropWhile re_space r3 = [] then Some (num, unit) else None)"

fun ToLower :: "string \<Rightarrow> string" where
  \<comment> \<open>\<open>strings.ToLower\<close> on what group 2 of \<open>sizeRe\<close> can hold: ASCII letters are
      lowered, the Kelvin sign becomes \<open>k\<close>, U+017F is already lower case\<close>
  "ToLower [] = []"
| "ToLower (c # cs) =
     (if map of_char (take 3 (c # cs)) = [226, 132, 170 :: nat] then CHR ''k'' # ToLower (drop 2 cs)
      else if 65 \<le> (of_char c :: nat) \<and> (of_char c :: nat) \<le> 90
      then char_of (of_char c + 32 :: nat) # ToLower cs
      else c # ToLower cs)"

datatype size_error = CannotParse | FloatSyntax | FloatRange | UnknownUnit

text \<open>
  \<open>strconv.ParseFloat(m[1], 64)\<close> on a string of digits and dots, which is all group 1
  can hold: the string is a number when it has at most one dot and at least one digit;
  the result is the \<open>float64\<close> nearest to its decimal value, or a range error when that
  overflows.
\<close>

definition decimal_rat :: "string \<Rightarrow> rat option" where
  "decimal_rat s =
     (let ip = takeWhile isDigit s; r = dropWhile isDigit s;
          fp = (case r of [] \<Rightarrow> [] | c # cs \<Rightarrow> cs)
      in if (r = [] \<or> hd r = CHR ''.'') \<and> list_all isDigit fp \<and> ip @ fp \<noteq> []
         then Some (of_int (decimal_value 0 (ip @ fp)) / 10 ^ length fp)
         else None)"

definition ParseFloat :: "string \<Rightarrow> size_error + rat" where
  "ParseFloat s =
     (case decimal_rat s of
        None \<Rightarrow> Inl FloatSyntax
      | Some q \<Rightarrow> if f64_overflow q then Inl FloatRange else Inr (f64_round q))"

text \<open>
  The conversion \<open>int64(f)\<close> truncates towards zero. When \<open>f\<close> is outside the range of
  \<open>int64\<close> (or infinite) the conversion still succeeds, with a value the language leaves
  to the implementation: \<open>Unrepresentable\<close>.
\<close>

datatype converted = Converted int | Unrepresentable

definition int64_of_f64 :: "rat \<Rightarrow> converted" where
  "int64_of_f64 f =
     (let i = sgn f * of_int \<lfloor>\<bar>f\<bar>\<rfloor> :: rat
      in if - (2 ^ 63) \<le> i \<and> i < 2 ^ 63 then Converted (\<lfloor>i\<rfloor>) else Unrepresentable)"

definition unit_multiplier :: "string \<Rightarrow> int option" where
  "unit_multiplier u =
     (if u = ''k'' \<or> u = ''kb'' then Some 1000
      else if u = ''m'' \<or> u = ''mb'' then Some (1000 * 1000)
      else if u = ''g'' \<or> u = ''gb'' then Some (1000 * 1000 * 1000)
      else if u = ''t'' \<or> u = ''tb'' then Some (1000 * 1000 * 1000 * 1000)
      else if u = ''kib'' then Some 1024
      else if u = ''mib'' then Some (1024 * 1024)
      else if u = ''gib'' then Some (1024 * 1024 * 1024)
      else if u = ''tib'' then Some (1024 * 1024 * 1024 * 1024)
      else None)"

definition ParseSize :: "string \<Rightarrow> size_error + converted" where
  "ParseSize s =
     (case sizeRe_FindStringSubmatch s of
        None \<Rightarrow> Inl CannotParse
      | Some (m1, unit) \<Rightarrow>
          (case ParseFloat m1 of
             Inl err \<Rightarrow> Inl err
           | Inr num \<Rightarrow>
               if unit = [] then Inr (int64_of_f64 num)
               else (case unit_multiplier (ToLower unit) of
                       None \<Rightarrow> Inl UnknownUnit
                     | Some mul \<Rightarrow>
                         if f64_overflow (num * f64_of_int mul) then Inr Unrepresentable
                         else Inr (int64_of_f64 (f64_mul num (f64_of_int mul))))))"

subsection \<open>Reference values and sample networks for the engine\<close>

text \<open>
  \<open>upload_sent maxBytes ps\<close> is the number of bytes the zero-filled body of \<open>maxBytes\<close>
  bytes hands out over reads with the buffer lengths \<open>ps\<close>. \<open>upload_kept\<close> is what an
  attempt has left in the shared counter once the transport has made its last read: for
  an attempt rejected with a status of 400 or more, the bytes of the reads that came
  after \<open>cr.count.Load()\<close>.
\<close>

definition upload_sent :: "int \<Rightarrow> nat list \<Rightarrow> int" where
  "upload_sent maxBytes ps = min (max maxBytes 0) (int (sum_list ps))"

definition upload_kept :: "put_outcome \<Rightarrow> int \<Rightarrow> int" where
  "upload_kept outcome maxBytes =
     (case outcome of
        PutRequestError \<Rightarrow> 0
      | PutTransportError ps late \<Rightarrow> upload_sent maxBytes (ps @ late)
      | PutResponse status ps late \<Rightarrow>
          if 400 \<le> status then upload_sent maxBytes (ps @ late) - upload_sent maxBytes ps
          else upload_sent maxBytes (ps @ late))"

text \<open>The formula the data model states for \<open>Mbps\<close>, read over the rationals.\<close>

definition claimed_Mbps :: "Result \<Rightarrow> rat" where
  "claimed_Mbps r = of_int (TotalBytes r) * 8 / max (Seconds (Duration r)) 1 / 1000000"

text \<open>
  A body that ends no earlier than the cap: every \<open>Read\<close> returns at most the 256 KiB
  buffer, and the reads together supply at least \<open>maxBytes\<close>.
\<close>

definition ample_body :: "int \<Rightarrow> body \<Rightarrow> bool" where
  "ample_body maxBytes b =
     ((\<forall>n \<in> set (reads b @ [last_n b]). n \<le> 262144) \<and>
      maxBytes \<le> int (sum_list (reads b) + last_n b))"

text \<open>Four downloads of 250000 bytes each that finish after half a second.\<close>

definition fast_net :: net where
  "fast_net =
     \<lparr>net_get = (\<lambda>i. GetResponse 200 (Body [250000] 0 EOF)),
      net_put = (\<lambda>i. PutRequestError),
      net_sched = [0, 1, 2, 3],
      net_elapsed = 500000000\<rparr>"

text \<open>A 2 MiB body served with status 200 and delivered in full 256 KiB reads.\<close>

definition chunky_net :: net where
  "chunky_net =
     \<lparr>net_get = (\<lambda>i. GetResponse 200
         (Body [262144, 262144, 262144, 262144, 262144, 262144, 262144, 262144] 0 EOF)),
      net_put = (\<lambda>i. PutRequestError),
      net_sched = [3, 0, 1, 0, 2, 2, 1, 3],
      net_elapsed = 2000000000\<rparr>"

text \<open>A body of exactly 1000000 bytes served with status 200.\<close>

definition exact_net :: net where
  "exact_net =
     \<lparr>net_get = (\<lambda>i. GetResponse 200 (Body [250000, 250000, 250000] 250000 EOF)),
      net_put = (\<lambda>i. PutRequestError),
      net_sched = [0, 1, 2, 3, 3, 2, 1, 0],
      net_elapsed = 2000000000\<rparr>"

text \<open>
  Two uploads: the server accepts worker 0 and rejects worker 1 with status 503; the
  transport has read both bodies to the end before the responses are handled.
\<close>

definition reject_net :: net where
  "reject_net =
     \<lparr>net_get = (\<lambda>i. GetTransportError),
      net_put = (\<lambda>i. if i = 0 then PutResponse 200 [4096, 4096] []
                      else PutResponse 503 [4096, 4096] []),
      net_sched = [1, 0, 1, 0, 1],
      net_elapsed = 1000000000\<rparr>"

text \<open>
  Two uploads of a 64 MiB body: the server accepts worker 0 after 65536 bytes; it
  rejects worker 1 with status 503 when the transport has read 32768 bytes, and the
  transport reads one more buffer of 32768 bytes after \<open>cr.count.Load()\<close>.
\<close>

definition late_net :: net where
  "late_net =
     \<lparr>net_get = (\<lambda>i. GetTransportError),
      net_put = (\<lambda>i. if i = 0 then PutResponse 200 [32768, 32768] []
                      else PutResponse 503 [32768] [32768]),
      net_sched = [1, 0, 1, 0, 1],
      net_elapsed = 1000000000\<rparr>"

text \<open>One download whose body delivers 150 bytes and then fails with a read error.\<close>

definition flaky_net :: net where
  "flaky_net =
     \<lparr>net_get = (\<lambda>i. GetResponse 200 (Body [100, 50] 0 ReadFailure)),
      net_put = (\<lambda>i. PutRequestError),
      net_sched = [0],
      net_elapsed = 3000000000\<rparr>"

subsection \<open>Reference definitions for the resolver\<close>

text \<open>
  Each distinct element once, in the order of first occurrence: the first element is
  kept and its later copies are dropped from what follows.
\<close>

fun first_seen :: "'a list \<Rightarrow> 'a list" where
  "first_seen [] = []"
| "first_seen (x # xs) = x # first_seen (removeAll x xs)"

text \<open>
  The addresses the structured tier of \<open>resolveDoH\<close> considers: the trimmed \<open>data\<close>
  fields that \<open>net.ParseIP\<close> accepts, in the order of the answer.
\<close>

definition structured_candidates :: "(string \<Rightarrow> string list option) \<Rightarrow> (string \<Rightarrow> bool) \<Rightarrow> string \<Rightarrow> string list" where
  "structured_candidates Unmarshal ParseIP_ok body =
     (case Unmarshal body of None \<Rightarrow> [] | Some answer \<Rightarrow> filter ParseIP_ok (map TrimSpace answer))"

text \<open>
  A valid IPv4 address in text: four fields separated by dots, each one to three decimal
  digits with a value of at most 255.
\<close>

fun split_dots :: "string \<Rightarrow> string \<Rightarrow> string list" where
  "split_dots field [] = [field]"
| "split_dots field (c # cs) =
     (if c = CHR ''.'' then field # split_dots [] cs else split_dots (field @ [c]) cs)"

definition is_ipv4 :: "string \<Rightarrow> bool" where
  "is_ipv4 s =
     (let fields = split_dots [] s
      in length fields = 4 \<and>
         list_all (\<lambda>f. f \<noteq> [] \<and> length f \<le> 3 \<and> list_all isDigit f \<and> decimal_value 0 f \<le> 255) fields)"

text \<open>A stand-in for \<open>net.ParseIP\<close> on the two kinds of text used below.\<close>

definition sample_ParseIP_ok :: "string \<Rightarrow> bool" where
  "sample_ParseIP_ok s = (is_ipv4 s \<or> s = ''2001:db8::1'')"

text \<open>The two parts of a description, as the resolution chain documents them.\<close>

definition desc_location :: "IPInfo \<Rightarrow> string" where
  "desc_location info =
     (let l = City info
            @ (if RegionName info \<noteq> [] \<and> RegionName info \<noteq> City info
               then '', '' @ RegionName info else [])
            @ (if Country info \<noteq> [] then '', '' @ Country info else [])
      in if l = [] then ''unknown location'' else l)"

definition desc_asn :: "IPInfo \<Rightarrow> string" where
  "desc_asn info =
     (let a = (if AS info = [] then Org info else AS info)
      in if a = [] then [] else '' ('' @ a @ '')'')"

definition tokyo_info :: IPInfo where
  "tokyo_info =
     \<lparr>Status = ''success'', Query = ''1.2.3.4'', AS = ''AS1234 Example'', ISP = [], Org = [],
      City = ''Tokyo'', RegionName = ''Tokyo'', Country = ''Japan''\<rparr>"

definition nowhere_info :: IPInfo where
  "nowhere_info =
     \<lparr>Status = ''success'', Query = [], AS = ''AS1234 Example'', ISP = [], Org = [],
      City = [], RegionName = [], Country = []\<rparr>"

text \<open>The decimal numeral of a natural number, as a user types it.\<close>

fun decimal :: "nat \<Rightarrow> string" where
  "decimal n =
     (if n < 10 then [''0123456789'' ! n]
      else decimal (n div 10) @ [''0123456789'' ! (n mod 10)])"

section \<open>Facts about the machine numbers\<close>

lemma wrap64_id: "- (2 ^ 63) \<le> x \<Longrightarrow> x < 2 ^ 63 \<Longrightarrow> wrap64 x = x"
  by (simp add: wrap64_def)

lemma wrap_add_gen: "(((a + K) mod M - K) + b + K) mod M = (a + b + K) mod M"
  for a :: int
proof -
  have "((a + K) mod M - K) + b + K = (a + K) mod M + b"
    by simp
  then have "(((a + K) mod M - K) + b + K) mod M = ((a + K) mod M + b) mod M"
    by (rule arg_cong)
  also have "\<dots> = (a + K + b) mod M"
    by (rule mod_add_left_eq)
  also have "a + K + b = a + b + K"
    by simp
  finally show ?thesis .
qed

lemma wrap64_wrap64_add: "wrap64 (wrap64 a + b) = wrap64 (a + b)"
  by (simp only: wrap64_def wrap_add_gen)

lemma wrap64_idem: "wrap64 (wrap64 a) = wrap64 a"
  using wrap64_wrap64_add [of a 0] by simp

lemma foldl_AddInt64: "foldl AddInt64 (wrap64 s) ds = wrap64 (s + sum_list ds)"
proof (induction ds arbitrary: s)
  case Nil
  then show ?case by simp
next
  case (Cons d ds)
  have "foldl AddInt64 (wrap64 s) (d # ds) = foldl AddInt64 (wrap64 (s + d)) ds"
    by (simp add: AddInt64_def wrap64_wrap64_add)
  also have "\<dots> = wrap64 (s + d + sum_list ds)" by (rule Cons.IH)
  finally show ?case by (simp add: add.assoc)
qed

subsection \<open>Rounding to float64 keeps the sign and the binade\<close>

lemma pow2_powi: "pow2 e = 2 powi e"
  by (simp add: pow2_def power_int_def power_inverse field_simps)

lemma pow2_pos: "0 < pow2 e"
  by (simp add: pow2_powi)

lemma pow2_add: "pow2 (a + b) = pow2 a * pow2 b"
  by (simp add: pow2_powi power_int_add)

lemma pow2_mono: "a \<le> b \<Longrightarrow> pow2 a \<le> pow2 b"
  by (simp add: pow2_powi power_int_increasing)

lemma pow2_less_imp_less: "pow2 a < pow2 b \<Longrightarrow> a < b"
  using pow2_mono [of b a] by (cases "a < b") auto

lemma bitlen_powi:
  assumes "0 < a"
  shows "2 powi (bitlen a - 1) \<le> (of_int a :: rat) \<and> (of_int a :: rat) < 2 powi (bitlen a)"
proof -
  from assms have l: "1 \<le> bitlen a"
    by (auto simp: bitlen_alt_def)
  from bitlen_bounds [OF assms] have "2 ^ nat (bitlen a - 1) \<le> a" "a < 2 ^ nat (bitlen a)"
    by auto
  then have "(of_int (2 ^ nat (bitlen a - 1)) :: rat) \<le> of_int a"
    "(of_int a :: rat) < of_int (2 ^ nat (bitlen a))"
    by (simp_all only: of_int_le_iff of_int_less_iff)
  with l show ?thesis
    by (simp add: power_int_def)
qed

lemma ilog2_cond:
  assumes "0 < b"
  shows "(if 0 \<le> e then b * 2 ^ nat e \<le> a else b \<le> a * 2 ^ nat (- e))
     = (2 powi e \<le> (of_int a / of_int b :: rat))"
proof (cases "0 \<le> e")
  case True
  have "(b * 2 ^ nat e \<le> a) = ((of_int (b * 2 ^ nat e) :: rat) \<le> of_int a)"
    by (simp only: of_int_le_iff)
  also have "\<dots> = (2 ^ nat e \<le> (of_int a / of_int b :: rat))"
    using assms by (simp add: field_simps)
  finally show ?thesis using True by (simp add: power_int_def)
next
  case False
  have "(b \<le> a * 2 ^ nat (- e)) = ((of_int b :: rat) \<le> of_int (a * 2 ^ nat (- e)))"
    by (simp only: of_int_le_iff)
  also have "\<dots> = (1 / 2 ^ nat (- e) \<le> (of_int a / of_int b :: rat))"
    using assms by (simp add: field_simps)
  finally show ?thesis using False by (simp add: power_int_def power_inverse field_simps)
qed

lemma ilog2_bounds:
  assumes "0 < q"
  shows "pow2 (ilog2 q) \<le> q \<and> q < pow2 (ilog2 q + 1)"
proof -
  obtain a b where ab: "quotient_of q = (a, b)"
    by (cases "quotient_of q") auto
  then have b: "0 < b" and q: "q = of_int a / of_int b"
    by (simp_all add: quotient_of_denom_pos quotient_of_div)
  with assms have a: "0 < a"
    by (simp add: zero_less_divide_iff)
  define e where "e = bitlen a - bitlen b"
  from bitlen_powi [OF a] have la: "2 powi (bitlen a - 1) \<le> (of_int a :: rat)"
    "(of_int a :: rat) < 2 powi (bitlen a)" by auto
  from bitlen_powi [OF b] have lb: "2 powi (bitlen b - 1) \<le> (of_int b :: rat)"
    "(of_int b :: rat) < 2 powi (bitlen b)" by auto
  have bpos: "0 < (of_int b :: rat)" using b by simp
  have upper: "q < 2 powi (e + 1)"
  proof -
    have "q * of_int b = of_int a" using q bpos by simp
    also have "\<dots> < 2 powi (bitlen a)" by (rule la(2))
    also have "\<dots> = 2 powi (e + 1) * 2 powi (bitlen b - 1)"
      by (simp add: e_def flip: power_int_add)
    also have "\<dots> \<le> 2 powi (e + 1) * of_int b"
      using lb(1) by (intro mult_left_mono) simp_all
    finally show ?thesis using bpos by simp
  qed
  have lower: "2 powi (e - 1) < q"
  proof -
    have "(2 :: rat) powi (e - 1) * of_int b < 2 powi (e - 1) * 2 powi (bitlen b)"
      using lb(2) by (intro mult_strict_left_mono) simp_all
    also have "\<dots> = 2 powi (bitlen a - 1)"
      by (simp add: e_def flip: power_int_add)
    also have "\<dots> \<le> of_int a" by (rule la(1))
    also have "\<dots> = q * of_int b" using q bpos by simp
    finally show ?thesis using bpos by simp
  qed
  have c: "(if 0 \<le> e then b * 2 ^ nat e \<le> a else b \<le> a * 2 ^ nat (- e)) = (2 powi e \<le> q)"
    unfolding q by (rule ilog2_cond [OF b])
  have "ilog2 q = (if (if 0 \<le> e then b * 2 ^ nat e \<le> a else b \<le> a * 2 ^ nat (- e))
      then e else e - 1)"
    by (simp add: ilog2_def ab e_def Let_def)
  then have il: "ilog2 q = (if 2 powi e \<le> q then e else e - 1)"
    by (simp only: c)
  show ?thesis
  proof (cases "2 powi e \<le> q")
    case True
    with il upper show ?thesis by (simp add: pow2_powi)
  next
    case False
    with il lower show ?thesis by (simp add: pow2_powi)
  qed
qed

lemma ilog2_ge: "0 < q \<Longrightarrow> pow2 k \<le> q \<Longrightarrow> k \<le> ilog2 q"
proof -
  assume "0 < q" "pow2 k \<le> q"
  with ilog2_bounds [of q] have "pow2 k < pow2 (ilog2 q + 1)" by simp
  then have "k < ilog2 q + 1" by (rule pow2_less_imp_less)
  then show ?thesis by simp
qed

lemma round_half_even_ge_floor: "\<lfloor>m\<rfloor> \<le> round_half_even m"
  by (simp add: round_half_even_def Let_def)

lemma f64_round_uminus: "f64_round (- q) = - f64_round q"
  by (simp add: f64_round_def Let_def)

lemma f64_round_nonneg: "0 \<le> q \<Longrightarrow> 0 \<le> f64_round q"
proof (cases "q = 0")
  case True
  then show ?thesis by (simp add: f64_round_def)
next
  case False
  assume "0 \<le> q"
  with False have q: "0 < q" by simp
  define u where "u = max (ilog2 q - 52) (- 1074)"
  have "0 \<le> q / pow2 u"
    using q pow2_pos [of u] by simp
  then have "0 \<le> \<lfloor>q / pow2 u\<rfloor>" by simp
  with round_half_even_ge_floor [of "q / pow2 u"] have "0 \<le> round_half_even (q / pow2 u)"
    by linarith
  then have "0 \<le> (of_int (round_half_even (q / pow2 u)) :: rat) * pow2 u"
    using pow2_pos [of u] by (intro mult_nonneg_nonneg) simp_all
  moreover have "f64_round q = of_int (round_half_even (q / pow2 u)) * pow2 u"
    using q by (simp add: f64_round_def Let_def u_def)
  ultimately show ?thesis by simp
qed

lemma f64_round_nonpos: "q \<le> 0 \<Longrightarrow> f64_round q \<le> 0"
  using f64_round_nonneg [of "- q"] by (simp add: f64_round_uminus)

lemma f64_round_ge_pow2:
  assumes "0 < q" "- 1022 \<le> k" "pow2 k \<le> q"
  shows "pow2 k \<le> f64_round q"
proof -
  define e where "e = ilog2 q"
  from assms ilog2_ge have ke: "k \<le> e" by (simp add: e_def)
  with assms(2) have u: "max (e - 52) (- 1074) = e - 52" by simp
  have "pow2 e \<le> q" using ilog2_bounds [OF assms(1)] by (simp add: e_def)
  then have "pow2 (e - 52) * 2 ^ 52 \<le> q"
    by (simp add: pow2_powi power_int_diff)
  then have "2 ^ 52 \<le> q / pow2 (e - 52)"
    using pow2_pos [of "e - 52"] by (simp add: field_simps)
  then have "(2 ^ 52 :: int) \<le> \<lfloor>q / pow2 (e - 52)\<rfloor>"
    by (simp add: le_floor_iff)
  with round_half_even_ge_floor [of "q / pow2 (e - 52)"]
  have "(2 ^ 52 :: int) \<le> round_half_even (q / pow2 (e - 52))" by linarith
  then have "(of_int (2 ^ 52) :: rat) \<le> of_int (round_half_even (q / pow2 (e - 52)))"
    by (simp only: of_int_le_iff)
  then have "2 ^ 52 * pow2 (e - 52) \<le> of_int (round_half_even (q / pow2 (e - 52))) * pow2 (e - 52)"
    using pow2_pos [of "e - 52"] by (intro mult_right_mono) simp_all
  moreover have "2 ^ 52 * pow2 (e - 52) = pow2 e"
    by (simp add: pow2_powi power_int_diff)
  moreover have "f64_round q = of_int (round_half_even (q / pow2 (e - 52))) * pow2 (e - 52)"
    using assms(1) u by (simp add: f64_round_def Let_def e_def)
  ultimately have "pow2 e \<le> f64_round q" by simp
  with pow2_mono [OF ke] show ?thesis by simp
qed

lemma pow2_m30: "pow2 (- 30) = 1 / 1073741824"
  by (simp add: pow2_def)

lemma pow2_m11: "pow2 (- 11) = 1 / 2048"
  by (simp add: pow2_def)

lemma pow2_0: "pow2 0 = 1"
  by (simp add: pow2_def)

lemma f64_round_0: "f64_round 0 = 0"
  by (simp add: f64_round_def)

lemma f64_round_ge_one: "1 \<le> q \<Longrightarrow> 1 \<le> f64_round q"
  using f64_round_ge_pow2 [of q 0] by (simp add: pow2_0)

section \<open>Facts about the throughput engine\<close>

lemma sum_list_concat_update:
  "i < length pending \<Longrightarrow> pending ! i = d # ds \<Longrightarrow>
   sum_list (concat (pending[i := ds])) + d = sum_list (concat pending)"
  for d :: int
proof (induction pending arbitrary: i)
  case Nil
  then show ?case by simp
next
  case (Cons p ps)
  show ?case
  proof (cases i)
    case 0
    with Cons.prems show ?thesis by simp
  next
    case (Suc j)
    with Cons.prems have "sum_list (concat (ps[j := ds])) + d = sum_list (concat ps)"
      by (intro Cons.IH) simp_all
    with Suc show ?thesis by simp
  qed
qed

lemma interleave_sum:
  "interleave sched pending (wrap64 s) = wrap64 (s + sum_list (concat pending))"
proof (induction sched arbitrary: pending s)
  case Nil
  show ?case by (simp add: foldl_AddInt64)
next
  case (Cons i sched)
  show ?case
  proof (cases "i < length pending")
    case False
    then show ?thesis by (simp add: Cons.IH)
  next
    case True
    show ?thesis
    proof (cases "pending ! i")
      case Nil
      with True show ?thesis by (simp add: Cons.IH)
    next
      case (Cons d ds)
      have "interleave (i # sched) pending (wrap64 s) = interleave sched (pending[i := ds]) (wrap64 (s + d))"
        using True Cons by (simp add: AddInt64_def wrap64_wrap64_add)
      also have "\<dots> = wrap64 (s + d + sum_list (concat (pending[i := ds])))"
        by (rule Cons.IH)
      also have "s + d + sum_list (concat (pending[i := ds])) = s + sum_list (concat pending)"
        using sum_list_concat_update [OF True Cons] by linarith
      finally show ?thesis .
    qed
  qed
qed

lemma wrap64_0: "wrap64 0 = 0"
  by (simp add: wrap64_def)

lemma interleave_0: "interleave sched pending 0 = wrap64 (sum_list (concat pending))"
  using interleave_sum [of sched pending 0] by (simp add: wrap64_0)

lemma count_chunk_exact:
  "0 \<le> tot \<Longrightarrow> tot < maxBytes \<Longrightarrow> maxBytes + 262144 \<le> 2 ^ 63 \<Longrightarrow> n \<le> 262144 \<Longrightarrow>
   count_chunk n tot = (tot + int n, if 0 < n then [int n] else [])"
  by (simp add: count_chunk_def wrap64_id)

lemma download_loop_sum:
  assumes "maxBytes + 262144 \<le> 2 ^ 63" "fin_n \<le> 262144"
  shows "0 \<le> tot \<Longrightarrow> tot < maxBytes \<Longrightarrow> \<forall>n \<in> set ns. n \<le> 262144 \<Longrightarrow>
    download_loop maxBytes tot ns fin_n fin_err = (t, fault, ds) \<Longrightarrow>
    t = tot + sum_list ds \<and> tot \<le> t \<and> t \<le> maxBytes + 262143"
proof (induction ns arbitrary: tot t fault ds)
  case Nil
  then show ?case
    using assms by (auto simp: count_chunk_exact split: if_splits)
next
  case (Cons n ns)
  have cc: "count_chunk n tot = (tot + int n, if 0 < n then [int n] else [])"
    using Cons.prems assms by (intro count_chunk_exact) auto
  show ?case
  proof (cases "maxBytes \<le> tot + int n")
    case True
    with Cons.prems(4) cc Cons.prems(1,2,3) show ?thesis
      by (auto split: if_splits)
  next
    case False
    obtain t' f' ds' where r: "download_loop maxBytes (tot + int n) ns fin_n fin_err = (t', f', ds')"
      by (cases "download_loop maxBytes (tot + int n) ns fin_n fin_err") auto
    have ih: "t' = tot + int n + sum_list ds' \<and> tot + int n \<le> t' \<and> t' \<le> maxBytes + 262143"
      using Cons.IH [OF _ _ _ r] False Cons.prems by auto
    from Cons.prems(4) cc False r have "t = t'" "ds = (if 0 < n then [int n] else []) @ ds'"
      by auto
    with ih show ?thesis by auto
  qed
qed

lemma download_loop_no_rollback:
  "download_loop maxBytes tot ns fin_n fin_err = (t, fault, ds) \<Longrightarrow>
   (\<forall>d \<in> set ds. 0 < d) \<and> t = foldl AddInt64 tot ds \<and>
   (\<exists>k. ds = map int (filter (\<lambda>n. 0 < n) (take k (ns @ [fin_n]))))"
proof (induction ns arbitrary: tot t fault ds)
  case Nil
  obtain tot' ds0 where cc: "count_chunk fin_n tot = (tot', ds0)"
    by (cases "count_chunk fin_n tot") auto
  then have ds0: "ds0 = (if 0 < fin_n then [int fin_n] else [])" "tot' = foldl AddInt64 tot ds0"
    by (auto simp: count_chunk_def AddInt64_def split: if_splits)
  from Nil cc have e: "t = tot'" "ds = ds0"
    by (auto split: if_splits)
  have "ds0 = map int (filter (\<lambda>n. 0 < n) (take 1 ([] @ [fin_n])))"
    using ds0 by simp
  then have C: "\<exists>k. ds = map int (filter (\<lambda>n. 0 < n) (take k ([] @ [fin_n])))"
    unfolding e ..
  from e ds0 have A: "\<forall>d \<in> set ds. 0 < d" and B: "t = foldl AddInt64 tot ds"
    by auto
  from A B C show ?case by blast
next
  case (Cons n ns)
  obtain tot' ds0 where cc: "count_chunk n tot = (tot', ds0)"
    by (cases "count_chunk n tot") auto
  then have ds0: "ds0 = (if 0 < n then [int n] else [])" "tot' = foldl AddInt64 tot ds0"
    by (auto simp: count_chunk_def AddInt64_def split: if_splits)
  show ?case
  proof (cases "maxBytes \<le> tot'")
    case True
    with Cons.prems cc have e: "t = tot'" "ds = ds0" by auto
    have "ds0 = map int (filter (\<lambda>n. 0 < n) (take 1 ((n # ns) @ [fin_n])))"
      using ds0 by simp
    then have C: "\<exists>k. ds = map int (filter (\<lambda>n. 0 < n) (take k ((n # ns) @ [fin_n])))"
      unfolding e ..
    from e ds0 have A: "\<forall>d \<in> set ds. 0 < d" and B: "t = foldl AddInt64 tot ds"
      by auto
    from A B C show ?thesis by blast
  next
    case False
    obtain t' f' ds' where r: "download_loop maxBytes tot' ns fin_n fin_err = (t', f', ds')"
      by (cases "download_loop maxBytes tot' ns fin_n fin_err") auto
    from Cons.IH [OF r] obtain k where
      ih: "\<forall>d \<in> set ds'. 0 < d" "t' = foldl AddInt64 tot' ds'"
          "ds' = map int (filter (\<lambda>n. 0 < n) (take k (ns @ [fin_n])))"
      by auto
    from Cons.prems cc False r have e: "t = t'" "ds = ds0 @ ds'" by auto
    have "ds0 @ ds' = map int (filter (\<lambda>n. 0 < n) (take (Suc k) ((n # ns) @ [fin_n])))"
      using ds0 ih(3) by simp
    then have C: "\<exists>k. ds = map int (filter (\<lambda>n. 0 < n) (take k ((n # ns) @ [fin_n])))"
      unfolding e ..
    from e ds0 ih(1,2) have A: "\<forall>d \<in> set ds. 0 < d" and B: "t = foldl AddInt64 tot ds"
      by auto
    from A B C show ?thesis by blast
  qed
qed

lemma download_loop_reaches_cap:
  assumes "maxBytes + 262144 \<le> 2 ^ 63" "fin_n \<le> 262144"
  shows "0 \<le> tot \<Longrightarrow> tot < maxBytes \<Longrightarrow> \<forall>n \<in> set ns. n \<le> 262144 \<Longrightarrow>
    download_loop maxBytes tot ns fin_n fin_err = (t, fault, ds) \<Longrightarrow>
    (maxBytes \<le> tot + int (sum_list ns + fin_n) \<longrightarrow> maxBytes \<le> t \<and> \<not> fault) \<and>
    (fault \<longrightarrow> fin_err = ReadFailure \<and> t < maxBytes) \<and>
    (ds \<noteq> [] \<longrightarrow> tot + sum_list (butlast ds) < maxBytes)"
proof (induction ns arbitrary: tot t fault ds)
  case Nil
  then show ?case
    using assms by (cases fin_err) (auto simp: count_chunk_exact split: if_splits)
next
  case (Cons n ns)
  have cc: "count_chunk n tot = (tot + int n, if 0 < n then [int n] else [])"
    using Cons.prems assms by (intro count_chunk_exact) auto
  show ?case
  proof (cases "maxBytes \<le> tot + int n")
    case True
    with Cons.prems(4) cc Cons.prems(1,2,3) show ?thesis
      by (auto split: if_splits)
  next
    case False
    obtain t' f' ds' where r: "download_loop maxBytes (tot + int n) ns fin_n fin_err = (t', f', ds')"
      by (cases "download_loop maxBytes (tot + int n) ns fin_n fin_err") auto
    have ih: "(maxBytes \<le> tot + int n + int (sum_list ns + fin_n) \<longrightarrow> maxBytes \<le> t' \<and> \<not> f') \<and>
      (f' \<longrightarrow> fin_err = ReadFailure \<and> t' < maxBytes) \<and>
      (ds' \<noteq> [] \<longrightarrow> tot + int n + sum_list (butlast ds') < maxBytes)"
      using Cons.IH [OF _ _ _ r] False Cons.prems by auto
    from Cons.prems(4) cc False r have e: "t = t'" "fault = f'" "ds = (if 0 < n then [int n] else []) @ ds'"
      by auto
    have bl: "ds \<noteq> [] \<longrightarrow> tot + sum_list (butlast ds) < maxBytes"
    proof (cases "ds' = []")
      case True
      with e False Cons.prems show ?thesis by (auto split: if_splits)
    next
      case nonempty: False
      with e ih show ?thesis by (auto simp: butlast_append)
    qed
    from ih e bl show ?thesis by (auto simp: add.assoc)
  qed
qed

lemma send_body_count:
  "send_body c ps = (c', ds) \<Longrightarrow>
   rd_count c' = rd_count c + sum_list ds \<and> (\<forall>d \<in> set ds. 0 < d) \<and>
   sum_list ds = min (max (rd_remaining c) 0) (int (sum_list ps)) \<and>
   rd_remaining c' = (if rd_remaining c \<le> 0 then rd_remaining c
                      else rd_remaining c - min (rd_remaining c) (int (sum_list ps)))"
proof (induction ps arbitrary: c c' ds)
  case Nil
  then show ?case by auto
next
  case (Cons p ps)
  obtain r c1 ds1 where s1: "countingReader_Read c p = (r, c1, ds1)"
    by (cases "countingReader_Read c p") auto
  obtain c2 ds2 where s2: "send_body c1 ps = (c2, ds2)"
    by (cases "send_body c1 ps") auto
  from Cons.prems s1 s2 have e: "c' = c2" "ds = ds1 @ ds2" by auto
  have one: "rd_count c1 = rd_count c + sum_list ds1 \<and> (\<forall>d \<in> set ds1. 0 < d) \<and>
      sum_list ds1 = min (max (rd_remaining c) 0) (int p) \<and>
      rd_remaining c1 = (if rd_remaining c \<le> 0 then rd_remaining c
                         else rd_remaining c - min (rd_remaining c) (int p))"
    using s1 by (auto simp: countingReader_Read_def zeroReader_Read_def Let_def split: if_splits)
  from Cons.IH [OF s2] one e show ?case
    by (auto simp: min_def max_def split: if_splits)
qed

lemma late_arith:
  "0 \<le> a \<Longrightarrow> 0 \<le> b \<Longrightarrow>
   min (max (if m \<le> 0 then m else m - min m a) 0) b = min (max m 0) (a + b) - min (max m 0) a"
  for m :: int
  by (cases "m \<le> 0"; cases "m \<le> a"; cases "m \<le> a + b") simp_all

lemma send_body_late:
  assumes "send_body \<lparr>rd_remaining = maxBytes, rd_count = 0\<rparr> ps = (c, ds)"
    and "send_body c late = (c', ds')"
  shows "rd_count c = sum_list ds \<and> (\<forall>d \<in> set (ds @ ds'). 0 < d) \<and>
     sum_list ds = upload_sent maxBytes ps \<and>
     sum_list ds' = upload_sent maxBytes (ps @ late) - upload_sent maxBytes ps"
proof -
  from send_body_count [OF assms(1)] have 1:
    "rd_count c = sum_list ds" "\<forall>d \<in> set ds. 0 < d"
    "sum_list ds = min (max maxBytes 0) (int (sum_list ps))"
    "rd_remaining c = (if maxBytes \<le> 0 then maxBytes
                       else maxBytes - min maxBytes (int (sum_list ps)))"
    by simp_all
  from send_body_count [OF assms(2)] have 2:
    "\<forall>d \<in> set ds'. 0 < d"
    "sum_list ds' = min (max (rd_remaining c) 0) (int (sum_list late))"
    by simp_all
  have "sum_list ds' = min (max maxBytes 0) (int (sum_list ps) + int (sum_list late))
      - min (max maxBytes 0) (int (sum_list ps))"
    unfolding 2(2) 1(4) by (rule late_arith) simp_all
  then have 3: "sum_list ds' = upload_sent maxBytes (ps @ late) - upload_sent maxBytes ps"
    by (simp add: upload_sent_def)
  from 1(3) have 4: "sum_list ds = upload_sent maxBytes ps"
    by (simp add: upload_sent_def)
  from 1(2) 2(1) have 5: "\<forall>d \<in> set (ds @ ds'). 0 < d"
    by auto
  from 1(1) 3 4 5 show ?thesis by blast
qed

lemma doUpload_rejected:
  assumes "400 \<le> status"
  shows "\<exists>ds ds'. doUpload (PutResponse status ps late) maxBytes =
       (0, True, ds @ [- sum_list ds] @ ds') \<and>
     (\<forall>d \<in> set (ds @ ds'). 0 < d) \<and> sum_list ds = upload_sent maxBytes ps \<and>
     sum_list ds' = upload_sent maxBytes (ps @ late) - upload_sent maxBytes ps"
proof -
  obtain c ds where s: "send_body \<lparr>rd_remaining = maxBytes, rd_count = 0\<rparr> ps = (c, ds)"
    by (cases "send_body \<lparr>rd_remaining = maxBytes, rd_count = 0\<rparr> ps") auto
  obtain c' ds' where l: "send_body c late = (c', ds')"
    by (cases "send_body c late") auto
  from s l assms send_body_late [OF s l]
  have "doUpload (PutResponse status ps late) maxBytes = (0, True, ds @ [- sum_list ds] @ ds')"
    by simp
  with send_body_late [OF s l] show ?thesis by blast
qed

lemma doUpload_transport_error:
  "\<exists>ds ds'. doUpload (PutTransportError ps late) maxBytes = (sum_list ds, True, ds @ ds') \<and>
     (\<forall>d \<in> set (ds @ ds'). 0 < d) \<and> sum_list ds = upload_sent maxBytes ps \<and>
     sum_list ds' = upload_sent maxBytes (ps @ late) - upload_sent maxBytes ps"
proof -
  obtain c ds where s: "send_body \<lparr>rd_remaining = maxBytes, rd_count = 0\<rparr> ps = (c, ds)"
    by (cases "send_body \<lparr>rd_remaining = maxBytes, rd_count = 0\<rparr> ps") auto
  obtain c' ds' where l: "send_body c late = (c', ds')"
    by (cases "send_body c late") auto
  from s l send_body_late [OF s l]
  have "doUpload (PutTransportError ps late) maxBytes = (sum_list ds, True, ds @ ds')"
    by simp
  with send_body_late [OF s l] show ?thesis by blast
qed

lemma doUpload_accepted:
  assumes "status < 400"
  shows "\<exists>ds ds'. doUpload (PutResponse status ps late) maxBytes = (sum_list ds, False, ds @ ds') \<and>
     (\<forall>d \<in> set (ds @ ds'). 0 < d) \<and> sum_list ds = upload_sent maxBytes ps \<and>
     sum_list ds' = upload_sent maxBytes (ps @ late) - upload_sent maxBytes ps"
proof -
  obtain c ds where s: "send_body \<lparr>rd_remaining = maxBytes, rd_count = 0\<rparr> ps = (c, ds)"
    by (cases "send_body \<lparr>rd_remaining = maxBytes, rd_count = 0\<rparr> ps") auto
  obtain c' ds' where l: "send_body c late = (c', ds')"
    by (cases "send_body c late") auto
  from s l assms send_body_late [OF s l]
  have "doUpload (PutResponse status ps late) maxBytes = (sum_list ds, False, ds @ ds')"
    by simp
  with send_body_late [OF s l] show ?thesis by blast
qed

lemma doUpload_deltas_sum:
  "sum_list (snd (snd (doUpload outcome maxBytes))) = upload_kept outcome maxBytes"
proof (cases outcome)
  case PutRequestError
  then show ?thesis by (simp add: upload_kept_def)
next
  case (PutTransportError ps late)
  with doUpload_transport_error [of ps late maxBytes] show ?thesis
    by (auto simp: upload_kept_def)
next
  case (PutResponse status ps late)
  show ?thesis
  proof (cases "400 \<le> status")
    case True
    with PutResponse doUpload_rejected [of status ps late maxBytes] show ?thesis
      by (auto simp: upload_kept_def)
  next
    case False
    with PutResponse doUpload_accepted [of status ps late maxBytes] show ?thesis
      by (auto simp: upload_kept_def)
  qed
qed

lemma upload_kept_rejected:
  assumes "400 \<le> status"
  shows "0 \<le> upload_kept (PutResponse status ps late) maxBytes \<and>
     (upload_kept (PutResponse status ps late) maxBytes = 0) =
       (maxBytes \<le> int (sum_list ps) \<or> sum_list late = 0)"
proof -
  have "(sum_list late = 0) = (int (sum_list late) = 0)"
    by (simp del: sum_list_eq_0_iff)
  moreover have "0 \<le> int (sum_list ps)" "0 \<le> int (sum_list late)"
    by simp_all
  ultimately show ?thesis
    using assms
    by (simp add: upload_kept_def upload_sent_def min_def max_def del: sum_list_eq_0_iff of_nat_eq_0_iff)
qed

lemma sum_list_concat_map: "sum_list (concat (map f xs)) = sum_list (map (\<lambda>x. sum_list (f x)) xs)"
  for f :: "'a \<Rightarrow> int list"
  by (induction xs) simp_all

lemma Run_TotalBytes:
  "TotalBytes (Run nw maxBytes dir threads) =
     wrap64 (sum_list (map (\<lambda>i. sum_list (snd (snd (run_worker nw dir maxBytes i)))) [0 ..< nat threads]))"
  by (simp add: Run_def Let_def interleave_0 sum_list_concat_map o_def)

lemma Run_download_total:
  "TotalBytes (Run nw maxBytes Download threads) =
     wrap64 (sum_list (map (\<lambda>i. sum_list (snd (snd (doDownload (net_get nw i) maxBytes))))
                        [0 ..< nat threads]))"
  by (simp add: Run_TotalBytes run_worker_def)

lemma Run_upload_total:
  "TotalBytes (Run nw maxBytes Upload threads) =
     wrap64 (sum_list (map (\<lambda>i. upload_kept (net_put nw i) maxBytes) [0 ..< nat threads]))"
  by (simp add: Run_TotalBytes run_worker_def doUpload_deltas_sum)

lemma sum_filter_take_le: "sum_list (filter P (take k xs)) \<le> sum_list xs"
  for xs :: "nat list"
proof (induction xs arbitrary: k)
  case Nil
  show ?case by simp
next
  case (Cons x xs)
  show ?case
  proof (cases k)
    case 0
    then show ?thesis by simp
  next
    case (Suc j)
    with Cons.IH [of j] show ?thesis by simp
  qed
qed

lemma sum_map_int: "sum_list (map int xs) = int (sum_list xs)"
  by (induction xs) simp_all

lemma doDownload_ample:
  assumes "status < 400" "0 < maxBytes" "maxBytes + 262144 \<le> 2 ^ 63" "ample_body maxBytes b"
  shows "\<exists>t ds. doDownload (GetResponse status b) maxBytes = (t, False, ds) \<and> sum_list ds = t \<and>
           maxBytes \<le> t \<and> t \<le> maxBytes + 262143 \<and> t \<le> int (sum_list (reads b) + last_n b)"
proof -
  obtain ns fin_n fin_err where b: "b = Body ns fin_n fin_err"
    by (cases b) auto
  obtain t fault ds where r: "download_loop maxBytes 0 ns fin_n fin_err = (t, fault, ds)"
    by (cases "download_loop maxBytes 0 ns fin_n fin_err") auto
  from assms(4) b have small: "\<forall>n \<in> set ns. n \<le> 262144" "fin_n \<le> 262144"
    and enough: "maxBytes \<le> 0 + int (sum_list ns + fin_n)"
    by (auto simp: ample_body_def)
  from download_loop_sum [OF assms(3) small(2) _ assms(2) small(1) r]
  have s: "t = sum_list ds" "t \<le> maxBytes + 262143" by auto
  from download_loop_reaches_cap [OF assms(3) small(2) _ assms(2) small(1) r] enough
  have c: "maxBytes \<le> t" "\<not> fault" by auto
  from download_loop_no_rollback [OF r] obtain k where
    "ds = map int (filter (\<lambda>n. 0 < n) (take k (ns @ [fin_n])))" by auto
  then have "sum_list ds = int (sum_list (filter (\<lambda>n. 0 < n) (take k (ns @ [fin_n]))))"
    by (simp add: sum_map_int)
  also have "\<dots> \<le> int (sum_list (ns @ [fin_n]))"
    using sum_filter_take_le [of "\<lambda>n. 0 < n" k "ns @ [fin_n]"] by linarith
  finally have u: "t \<le> int (sum_list (reads b) + last_n b)"
    using s b by simp
  from r s c u b assms(1) show ?thesis by simp
qed

lemma Run_FaultCount:
  "FaultCount (Run nw maxBytes dir threads) =
     wrap32 (int (length (filter (\<lambda>i. fst (snd (run_worker nw dir maxBytes i))) [0 ..< nat threads])))"
  by (simp add: Run_def Let_def filter_map o_def)

lemma Run_HadFault:
  "HadFault (Run nw maxBytes dir threads) = (0 < FaultCount (Run nw maxBytes dir threads))"
  by (simp add: Run_def Let_def)

lemma upt_4: "[0 ..< 4] = [0, 1, 2, 3 :: nat]"
  by (simp add: upt_rec)

lemma download_loop_fault:
  "download_loop maxBytes tot ns fin_n fin_err = (t, True, ds) \<Longrightarrow>
   fin_err = ReadFailure \<and> t < maxBytes \<and> ds = map int (filter (\<lambda>n. 0 < n) (ns @ [fin_n]))"
proof (induction ns arbitrary: tot t ds)
  case Nil
  then show ?case
    by (cases fin_err) (auto simp: count_chunk_def split: if_splits)
next
  case (Cons n ns)
  obtain tot' ds0 where cc: "count_chunk n tot = (tot', ds0)"
    by (cases "count_chunk n tot") auto
  then have ds0: "ds0 = (if 0 < n then [int n] else [])"
    by (auto simp: count_chunk_def split: if_splits)
  from Cons.prems cc have cap: "\<not> maxBytes \<le> tot'"
    by (auto split: if_splits)
  obtain t' f' ds' where r: "download_loop maxBytes tot' ns fin_n fin_err = (t', f', ds')"
    by (cases "download_loop maxBytes tot' ns fin_n fin_err") auto
  from Cons.prems cc cap r have e: "t = t'" "f' = True" "ds = ds0 @ ds'"
    by auto
  from Cons.IH [of tot' t' ds'] r e(2)
  have "fin_err = ReadFailure \<and> t' < maxBytes \<and> ds' = map int (filter (\<lambda>n. 0 < n) (ns @ [fin_n]))"
    by simp
  with e ds0 show ?case by simp
qed

lemma download_loop_fault_iff:
  "download_loop maxBytes tot ns fin_n fin_err = (t, fault, ds) \<Longrightarrow>
   fault = (fin_err = ReadFailure \<and> t < maxBytes) \<and>
   (t < maxBytes \<longrightarrow> ds = map int (filter (\<lambda>n. 0 < n) (ns @ [fin_n])))"
proof (induction ns arbitrary: tot t fault ds)
  case Nil
  then show ?case
    by (cases fin_err) (auto simp: count_chunk_def split: if_splits)
next
  case (Cons n ns)
  obtain tot' ds0 where cc: "count_chunk n tot = (tot', ds0)"
    by (cases "count_chunk n tot") auto
  then have ds0: "ds0 = (if 0 < n then [int n] else [])"
    by (auto simp: count_chunk_def split: if_splits)
  show ?case
  proof (cases "maxBytes \<le> tot'")
    case True
    with Cons.prems cc have "t = tot'" "fault = False"
      by auto
    with True show ?thesis by simp
  next
    case False
    obtain t' f' ds' where r: "download_loop maxBytes tot' ns fin_n fin_err = (t', f', ds')"
      by (cases "download_loop maxBytes tot' ns fin_n fin_err") auto
    from Cons.prems cc False r have e: "t = t'" "fault = f'" "ds = ds0 @ ds'"
      by auto
    from Cons.IH [OF r]
    have "f' = (fin_err = ReadFailure \<and> t' < maxBytes) \<and>
        (t' < maxBytes \<longrightarrow> ds' = map int (filter (\<lambda>n. 0 < n) (ns @ [fin_n])))" .
    with e ds0 show ?thesis by simp
  qed
qed

lemma download_loop_below_cap:
  assumes "maxBytes \<le> 2 ^ 63"
  shows "0 \<le> tot \<Longrightarrow> tot + int (sum_list ns + fin_n) < maxBytes \<Longrightarrow>
    download_loop maxBytes tot ns fin_n fin_err =
      (tot + int (sum_list ns + fin_n), fin_err = ReadFailure,
       map int (filter (\<lambda>n. 0 < n) (ns @ [fin_n])))"
proof (induction ns arbitrary: tot)
  case Nil
  with assms have "count_chunk fin_n tot = (tot + int fin_n, if 0 < fin_n then [int fin_n] else [])"
    by (simp add: count_chunk_def wrap64_id)
  with Nil show ?case
    by (cases fin_err) simp_all
next
  case (Cons n ns)
  with assms have cc: "count_chunk n tot = (tot + int n, if 0 < n then [int n] else [])"
    by (simp add: count_chunk_def wrap64_id)
  have "download_loop maxBytes (tot + int n) ns fin_n fin_err =
      (tot + int n + int (sum_list ns + fin_n), fin_err = ReadFailure,
       map int (filter (\<lambda>n. 0 < n) (ns @ [fin_n])))"
    using Cons.prems by (intro Cons.IH) simp_all
  with cc Cons.prems show ?case
    by (simp add: add.assoc)
qed

lemma Run_Mbps_eq:
  "Mbps (Run nw maxBytes dir threads) =
     f64_div (f64_mul (f64_of_int (TotalBytes (Run nw maxBytes dir threads))) 8)
             (f64_mul (elapsed_seconds (Duration (Run nw maxBytes dir threads))) 1000000)"
  by (simp add: Run_def Let_def)

lemma Run_Duration: "Duration (Run nw maxBytes dir threads) = net_elapsed nw"
  by (simp add: Run_def Let_def)

lemma Seconds_half: "Seconds 500000000 = 1 / 2"
  by code_simp

lemma Mbps_half_second:
  "f64_div (f64_mul (f64_of_int 1000000) 8) (f64_mul (1 / 2) 1000000) = 16"
  by code_simp

subsection \<open>The elapsed seconds\<close>

lemma Seconds_pos:
  assumes "0 < d"
  shows "pow2 (- 30) \<le> Seconds d"
proof -
  define q where "q = d div 1000000000"
  define r where "r = d mod 1000000000"
  from assms have gq: "go_quot d 1000000000 = q" and gr: "go_rem d 1000000000 = r"
    by (simp_all add: go_quot_def go_rem_def q_def r_def minus_mult_div_eq_mod)
  from assms have q0: "0 \<le> q" and r0: "0 \<le> r"
    by (simp_all add: q_def r_def pos_imp_zdiv_nonneg_iff)
  define a where "a = f64_round (of_int q)"
  define b where "b = f64_round (f64_round (of_int r) / 1000000000)"
  have S: "Seconds d = f64_round (a + b)"
    by (simp add: Seconds_def f64_add_def f64_div_def f64_of_int_def gq gr a_def b_def)
  have a0: "0 \<le> a" using q0 by (simp add: a_def f64_round_nonneg)
  have b0: "0 \<le> b"
    using r0 by (simp add: b_def f64_round_nonneg)
  have "pow2 (- 30) \<le> a + b"
  proof (cases "r = 0")
    case True
    have "d = 1000000000 * q + r"
      by (simp add: q_def r_def)
    with True assms have "0 < 1000000000 * q" by simp
    then have "1 \<le> q" by simp
    then have "1 \<le> a" by (simp add: a_def f64_round_ge_one)
    with b0 show ?thesis by (simp add: pow2_m30)
  next
    case False
    with r0 have "1 \<le> r" by simp
    then have "1 \<le> f64_round (of_int r)" by (simp add: f64_round_ge_one)
    then have "pow2 (- 30) \<le> f64_round (of_int r) / 1000000000"
      by (simp add: pow2_m30 field_simps)
    moreover from this have "0 < f64_round (of_int r) / 1000000000"
      using pow2_pos [of "- 30"] by linarith
    ultimately have "pow2 (- 30) \<le> b"
      unfolding b_def by (intro f64_round_ge_pow2) simp_all
    with a0 show ?thesis by simp
  qed
  moreover from this have "0 < a + b"
    using pow2_pos [of "- 30"] by linarith
  ultimately show ?thesis
    unfolding S by (intro f64_round_ge_pow2) simp_all
qed

lemma Seconds_nonpos:
  assumes "d \<le> 0"
  shows "Seconds d \<le> 0"
proof -
  have gq: "go_quot d 1000000000 \<le> 0"
    using assms by (simp add: go_quot_def sgn_if pos_imp_zdiv_nonneg_iff)
  have gr: "go_rem d 1000000000 \<le> 0"
  proof (cases "d = 0")
    case True
    then show ?thesis by (simp add: go_rem_def go_quot_def)
  next
    case False
    with assms have neg: "d < 0" by simp
    have "(- d) mod 1000000000 = (- d) - 1000000000 * ((- d) div 1000000000)"
      by (simp add: minus_mult_div_eq_mod)
    moreover have "0 \<le> (- d) mod 1000000000" by simp
    moreover from neg have "go_rem d 1000000000 = d + 1000000000 * ((- d) div 1000000000)"
      by (simp add: go_rem_def go_quot_def)
    ultimately show ?thesis by linarith
  qed
  have a: "f64_round (of_int (go_quot d 1000000000)) \<le> 0"
    using gq by (intro f64_round_nonpos) simp
  have "f64_round (of_int (go_rem d 1000000000)) \<le> 0"
    using gr by (intro f64_round_nonpos) simp
  then have "f64_round (of_int (go_rem d 1000000000)) / 1000000000 \<le> 0"
    by (simp add: divide_le_0_iff)
  then have b: "f64_round (f64_round (of_int (go_rem d 1000000000)) / 1000000000) \<le> 0"
    by (rule f64_round_nonpos)
  from a b show ?thesis
    by (simp add: Seconds_def f64_add_def f64_div_def f64_of_int_def f64_round_nonpos)
qed

lemma elapsed_seconds_eq: "elapsed_seconds d = (if d \<le> 0 then 1 else Seconds d)"
proof (cases "d \<le> 0")
  case True
  with Seconds_nonpos [of d] show ?thesis by (simp add: elapsed_seconds_def)
next
  case False
  with Seconds_pos [of d] pow2_pos [of "- 30"] have "0 < Seconds d" by simp
  with False show ?thesis by (simp add: elapsed_seconds_def)
qed

lemma elapsed_seconds_ge: "pow2 (- 30) \<le> elapsed_seconds d"
  using Seconds_pos [of d] by (simp add: elapsed_seconds_eq pow2_m30)

lemma Mbps_divisor_pos: "0 < f64_mul (elapsed_seconds d) 1000000"
proof -
  have "pow2 (- 30) * 1000000 \<le> elapsed_seconds d * 1000000"
    using elapsed_seconds_ge [of d] by simp
  then have 1: "pow2 (- 11) \<le> elapsed_seconds d * 1000000"
    by (simp add: pow2_m30 pow2_m11)
  moreover from this have "0 < elapsed_seconds d * 1000000"
    using pow2_pos [of "- 11"] by linarith
  ultimately have "pow2 (- 11) \<le> f64_mul (elapsed_seconds d) 1000000"
    unfolding f64_mul_def by (intro f64_round_ge_pow2) simp_all
  with pow2_pos [of "- 11"] show ?thesis by linarith
qed

section \<open>Facts about the resolver\<close>

lemma set_first_seen: "set (first_seen xs) = set xs"
proof (induction xs rule: first_seen.induct)
  case 1
  show ?case by simp
next
  case (2 x xs)
  then show ?case by auto
qed

lemma distinct_first_seen: "distinct (first_seen xs)"
proof (induction xs rule: first_seen.induct)
  case 1
  show ?case by simp
next
  case (2 x xs)
  then show ?case by (simp add: set_first_seen)
qed

lemma first_seen_Nil_iff: "first_seen xs = [] \<longleftrightarrow> xs = []"
  by (cases xs) simp_all

lemma removeAll_filter_not_in:
  "removeAll x (filter (\<lambda>y. y \<notin> set out) xs) = filter (\<lambda>y. y \<notin> set (out @ [x])) xs"
  by (induction xs) auto

lemma collect_matches_first_seen:
  "(\<forall>x. (seen x = Some True) = (x \<in> set out)) \<Longrightarrow>
   collect_matches xs seen out = out @ first_seen (filter (\<lambda>y. y \<notin> set out) xs)"
proof (induction xs arbitrary: seen out)
  case Nil
  show ?case by simp
next
  case (Cons x xs)
  show ?case
  proof (cases "x \<in> set out")
    case True
    with Cons.prems have "collect_matches (x # xs) seen out = collect_matches xs seen out"
      by simp
    also have "\<dots> = out @ first_seen (filter (\<lambda>y. y \<notin> set out) xs)"
      by (rule Cons.IH [OF Cons.prems])
    finally show ?thesis using True by simp
  next
    case False
    with Cons.prems have "collect_matches (x # xs) seen out
        = collect_matches xs (seen(x \<mapsto> True)) (out @ [x])"
      by simp
    also have "\<dots> = (out @ [x]) @ first_seen (filter (\<lambda>y. y \<notin> set (out @ [x])) xs)"
      using Cons.prems by (intro Cons.IH) auto
    finally show ?thesis
      using False by (simp add: removeAll_filter_not_in)
  qed
qed

lemma collect_answers_first_seen:
  "(\<forall>x. (seen x = Some True) = (x \<in> set out)) \<Longrightarrow>
   collect_answers P xs seen out
     = out @ first_seen (filter (\<lambda>y. y \<notin> set out) (filter P (map TrimSpace xs)))"
proof (induction xs arbitrary: seen out)
  case Nil
  show ?case by simp
next
  case (Cons x xs)
  let ?ip = "TrimSpace x"
  show ?case
  proof (cases "P ?ip \<and> ?ip \<notin> set out")
    case False
    with Cons.prems have "collect_answers P (x # xs) seen out = collect_answers P xs seen out"
      by (auto simp: Let_def)
    also have "\<dots> = out @ first_seen (filter (\<lambda>y. y \<notin> set out) (filter P (map TrimSpace xs)))"
      by (rule Cons.IH [OF Cons.prems])
    finally show ?thesis using False by auto
  next
    case True
    with Cons.prems have "collect_answers P (x # xs) seen out
        = collect_answers P xs (seen(?ip \<mapsto> True)) (out @ [?ip])"
      by (simp add: Let_def)
    also have "\<dots> = (out @ [?ip]) @
        first_seen (filter (\<lambda>y. y \<notin> set (out @ [?ip])) (filter P (map TrimSpace xs)))"
      using Cons.prems by (intro Cons.IH) auto
    also have "\<dots> = out @ ?ip #
        first_seen (removeAll ?ip (filter (\<lambda>y. y \<notin> set out) (filter P (map TrimSpace xs))))"
      by (simp only: removeAll_filter_not_in append_assoc append_Cons append_Nil)
    also have "?ip # first_seen (removeAll ?ip (filter (\<lambda>y. y \<notin> set out) (filter P (map TrimSpace xs))))
        = first_seen (filter (\<lambda>y. y \<notin> set out) (filter P (map TrimSpace (x # xs))))"
      using True by (simp del: filter_filter)
    finally show ?thesis .
  qed
qed

lemma resolveDoH_body:
  "resolveDoH U P (DohBody body) =
     (if structured_candidates U P body \<noteq> [] then first_seen (structured_candidates U P body)
      else first_seen (ipv4Re_FindAllString body))"
proof -
  have m: "collect_matches xs Map.empty [] = first_seen xs" for xs
    using collect_matches_first_seen [of Map.empty "[]" xs] by simp
  have a: "collect_answers P xs Map.empty [] = first_seen (filter P (map TrimSpace xs))" for xs
    using collect_answers_first_seen [of Map.empty "[]" P xs] by simp
  show ?thesis
  proof (cases "U body")
    case None
    then show ?thesis by (simp add: structured_candidates_def m)
  next
    case (Some answer)
    show ?thesis
    proof (cases "answer = []")
      case True
      with Some show ?thesis by (simp add: structured_candidates_def m)
    next
      case False
      with Some show ?thesis
        by (simp add: structured_candidates_def m a first_seen_Nil_iff Let_def
            del: collect_answers.simps)
    qed
  qed
qed

lemma resolveDoH_distinct: "distinct (resolveDoH U P resp)"
  by (cases resp) (simp_all add: resolveDoH_body distinct_first_seen del: resolveDoH.simps(3))

lemma FindAll_example:
  "ipv4Re_FindAllString ''1.2.3.4\<newline>5.6.7.8\<newline>1.2.3.4\<newline>''
     = [''1.2.3.4'', ''5.6.7.8'', ''1.2.3.4'']"
  by code_simp

subsection \<open>Decimal numerals at the prompt\<close>

lemma digit_char: "k < 10 \<Longrightarrow> isDigit (''0123456789'' ! k) \<and> of_char (''0123456789'' ! k) = 48 + int k"
proof -
  assume "k < 10"
  then have "k \<in> {0, 1, 2, 3, 4, 5, 6, 7, 8, 9}" by auto
  then show ?thesis
    by (auto simp: isDigit_def)
qed

lemma decimal_digits: "list_all isDigit (decimal n) \<and> decimal n \<noteq> []"
proof (induction n rule: decimal.induct)
  case (1 n)
  show ?case
  proof (cases "n < 10")
    case True
    then show ?thesis using digit_char [of n] by (simp add: decimal.simps [of n])
  next
    case False
    with 1 digit_char [of "n mod 10"] show ?thesis
      by (simp add: decimal.simps [of n])
  qed
qed

lemma decimal_value_append:
  "decimal_value a (xs @ ys) = decimal_value (decimal_value a xs) ys"
  by (induction xs arbitrary: a) simp_all

lemma decimal_value_decimal: "decimal_value 0 (decimal n) = int n"
proof (induction n rule: decimal.induct)
  case (1 n)
  show ?case
  proof (cases "n < 10")
    case True
    then show ?thesis using digit_char [of n] by (simp add: decimal.simps [of n])
  next
    case False
    with 1 have "decimal_value 0 (decimal (n div 10)) = int (n div 10)" by simp
    with False digit_char [of "n mod 10"] show ?thesis
      by (simp add: decimal.simps [of n] decimal_value_append zdiv_int zmod_int)
  qed
qed

lemma isDigit_cases:
  "isDigit c \<Longrightarrow> (of_char c :: nat) \<in> {48, 49, 50, 51, 52, 53, 54, 55, 56, 57}"
  by (auto simp: isDigit_def)

lemma digit_no_space_front: "isDigit c \<Longrightarrow> space_width False (c # cs) = 0"
proof -
  assume "isDigit c"
  then have c: "(of_char c :: nat) \<in> {48, 49, 50, 51, 52, 53, 54, 55, 56, 57}"
    by (rule isDigit_cases)
  have 1: "[of_char c :: nat] \<notin> set space_runes"
    using c by (auto simp: space_runes_def)
  have 2: "(of_char c :: nat) # x # [] \<notin> set space_runes" for x
    using c by (auto simp: space_runes_def)
  have 3: "(of_char c :: nat) # x # y # [] \<notin> set space_runes" for x y
    using c by (auto simp: space_runes_def)
  show ?thesis
  proof (cases cs)
    case Nil
    with 1 show ?thesis by (simp add: space_width_def)
  next
    case (Cons x xs)
    show ?thesis
    proof (cases xs)
      case Nil
      with Cons 1 2 show ?thesis by (simp add: space_width_def)
    next
      case (Cons y ys)
      with \<open>cs = x # xs\<close> 1 2 3 show ?thesis by (simp add: space_width_def)
    qed
  qed
qed

lemma digit_no_space_back: "isDigit c \<Longrightarrow> space_width True (c # cs) = 0"
proof -
  assume "isDigit c"
  then have c: "(of_char c :: nat) \<in> {48, 49, 50, 51, 52, 53, 54, 55, 56, 57}"
    by (rule isDigit_cases)
  have 1: "[of_char c :: nat] \<notin> set space_runes"
    using c by (auto simp: space_runes_def)
  have 2: "x # (of_char c :: nat) # [] \<notin> set space_runes" for x
    using c by (auto simp: space_runes_def)
  have 3: "y # x # (of_char c :: nat) # [] \<notin> set space_runes" for x y
    using c by (auto simp: space_runes_def)
  show ?thesis
  proof (cases cs)
    case Nil
    with 1 show ?thesis by (simp add: space_width_def)
  next
    case (Cons x xs)
    show ?thesis
    proof (cases xs)
      case Nil
      with Cons 1 2 show ?thesis by (simp add: space_width_def)
    next
      case (Cons y ys)
      with \<open>cs = x # xs\<close> 1 2 3 show ?thesis by (simp add: space_width_def)
    qed
  qed
qed

lemma TrimSpace_digits_newline:
  assumes "list_all isDigit ds" "ds \<noteq> []"
  shows "TrimSpace (ds @ [CHR 0x0A]) = ds"
proof -
  obtain c cs where f: "ds = c # cs" using assms(2) by (cases ds) auto
  with assms(1) have "isDigit c" by simp
  then have front: "trim_front False (ds @ [CHR 0x0A]) = ds @ [CHR 0x0A]"
    using digit_no_space_front [of c "cs @ [CHR 0x0A]"] f by simp
  obtain d rs where r: "rev ds = d # rs" using assms(2) by (cases "rev ds") auto
  then have "d \<in> set ds" by (metis list.set_intros(1) set_rev)
  with assms(1) have d: "isDigit d" by (simp add: list_all_iff)
  have nl: "space_width True (CHR 0x0A # rev ds) = 1"
    by (simp add: space_width_def space_runes_def)
  have "trim_front True (rev (ds @ [CHR 0x0A])) = trim_front True (rev ds)"
    using nl by simp
  also have "\<dots> = rev ds"
    using digit_no_space_back [OF d, of rs] r by simp
  finally show ?thesis
    by (simp add: TrimSpace_def front)
qed

lemma Atoi_decimal: "n < 2 ^ 63 \<Longrightarrow> Atoi (decimal n) = Inr (int n)"
proof -
  assume n: "n < 2 ^ 63"
  from decimal_digits [of n] obtain c cs where f: "decimal n = c # cs" "isDigit c"
    by (cases "decimal n") auto
  then have h: "hd (decimal n) \<noteq> CHR ''-''" "hd (decimal n) \<noteq> CHR ''+''"
    by (auto simp: isDigit_def)
  have v: "decimal_value 0 (decimal n) = int n"
    by (rule decimal_value_decimal)
  from h v decimal_digits [of n] n show ?thesis
    by (simp add: Atoi_def Let_def)
qed

lemma promptChoice_decimal:
  assumes "1 \<le> n" "int n \<le> count" "n < 2 ^ 63"
  shows "promptChoice count (decimal n @ [CHR 0x0A]) = (int n - 1, [])"
proof -
  have "TrimSpace (decimal n @ [CHR 0x0A]) = decimal n"
    using decimal_digits [of n] by (intro TrimSpace_digits_newline) simp_all
  with assms Atoi_decimal [of n] decimal_digits [of n] show ?thesis
    by (simp add: promptChoice_def)
qed

section \<open>The claims about the throughput engine\<close>

text \<open>
  C1, as the code has it. An upload attempt whose PUT completes with a status of 400 or
  more reports 0 bytes and is faulted. Its additions to the shared counter are all
  positive; it subtracts, once, exactly the sum of the additions that
  \<open>cr.count.Load()\<close> has seen; the additions of the reads that the transport makes
  after that are not subtracted by anything. An attempt that fails with a transport
  error is faulted, reports the bytes counted so far and subtracts nothing. Hence, for
  every interleaving of the workers, the counter that \<open>Run\<close> reads at the end is the
  wrapped sum of \<open>upload_kept\<close> over the workers, where a worker rejected with a status
  of 400 or more contributes the bytes read from its body after its rollback: 0 exactly
  when the transport had exhausted the body or reads nothing more, and more than 0
  otherwise, so that the counter then does include bytes of a rejected worker.
\<close>

theorem doUpload_rollback:
  "(400 \<le> status \<longrightarrow>
      (\<exists>ds ds'. doUpload (PutResponse status ps late) maxBytes =
                   (0, True, ds @ [- sum_list ds] @ ds') \<and>
                 (\<forall>d \<in> set (ds @ ds'). 0 < d) \<and>
                 sum_list ds = upload_sent maxBytes ps \<and>
                 sum_list ds' = upload_sent maxBytes (ps @ late) - upload_sent maxBytes ps) \<and>
      0 \<le> upload_kept (PutResponse status ps late) maxBytes \<and>
      (upload_kept (PutResponse status ps late) maxBytes = 0) =
        (maxBytes \<le> int (sum_list ps) \<or> sum_list late = 0)) \<and>
   (\<exists>ds ds'. doUpload (PutTransportError ps late) maxBytes = (sum_list ds, True, ds @ ds') \<and>
              (\<forall>d \<in> set (ds @ ds'). 0 < d) \<and>
              sum_list ds = upload_sent maxBytes ps \<and>
              sum_list ds' = upload_sent maxBytes (ps @ late) - upload_sent maxBytes ps) \<and>
   TotalBytes (Run nw maxBytes Upload threads) =
     wrap64 (sum_list (map (\<lambda>i. upload_kept (net_put nw i) maxBytes) [0 ..< nat threads]))"
proof (intro conjI impI)
  assume "400 \<le> status"
  then show "\<exists>ds ds'. doUpload (PutResponse status ps late) maxBytes =
        (0, True, ds @ [- sum_list ds] @ ds') \<and>
      (\<forall>d \<in> set (ds @ ds'). 0 < d) \<and>
      sum_list ds = upload_sent maxBytes ps \<and>
      sum_list ds' = upload_sent maxBytes (ps @ late) - upload_sent maxBytes ps"
    by (rule doUpload_rejected)
next
  assume "400 \<le> status"
  then show "0 \<le> upload_kept (PutResponse status ps late) maxBytes"
    using upload_kept_rejected [of status ps late maxBytes] by simp
next
  assume "400 \<le> status"
  then show "(upload_kept (PutResponse status ps late) maxBytes = 0) =
      (maxBytes \<le> int (sum_list ps) \<or> sum_list late = 0)"
    using upload_kept_rejected [of status ps late maxBytes] by (simp del: sum_list_eq_0_iff)
next
  show "\<exists>ds ds'. doUpload (PutTransportError ps late) maxBytes = (sum_list ds, True, ds @ ds') \<and>
      (\<forall>d \<in> set (ds @ ds'). 0 < d) \<and>
      sum_list ds = upload_sent maxBytes ps \<and>
      sum_list ds' = upload_sent maxBytes (ps @ late) - upload_sent maxBytes ps"
    by (rule doUpload_transport_error)
next
  show "TotalBytes (Run nw maxBytes Upload threads) =
      wrap64 (sum_list (map (\<lambda>i. upload_kept (net_put nw i) maxBytes) [0 ..< nat threads]))"
    by (rule Run_upload_total)
qed

text \<open>
  The claim fails on a late read. With a body of 64 MiB, worker 1 is rejected with
  status 503 after one read of 32768 bytes and the transport reads 32768 bytes more
  after the rollback: the worker reports 0 bytes and is the one faulted worker, and the
  final counter holds the 65536 bytes of the accepted worker 0 and 32768 bytes of the
  rejected worker. When nothing is read after the rollback (\<open>reject_net\<close>) the rejected
  worker leaves nothing.
\<close>

theorem doUpload_rollback_witness:
  "(400 :: int) \<le> 503 \<and>
   doUpload (PutResponse 503 [32768] [32768]) 67108864 = (0, True, [32768, - 32768, 32768]) \<and>
   upload_kept (PutResponse 503 [32768] [32768]) 67108864 = 32768 \<and>
   doUpload (PutResponse 200 [32768, 32768] []) 67108864 = (65536, False, [32768, 32768]) \<and>
   TotalBytes (Run late_net 67108864 Upload 2) = 98304 \<and>
   FaultCount (Run late_net 67108864 Upload 2) = 1 \<and>
   doUpload (PutTransportError [4096] [4096]) 5000 = (4096, True, [4096, 904]) \<and>
   doUpload (PutResponse 503 [4096, 4096] []) 5000 = (0, True, [4096, 904, - 5000]) \<and>
   TotalBytes (Run reject_net 5000 Upload 2) = 5000"
proof -
  have a: "doUpload (PutResponse 503 [32768] [32768]) 67108864 = (0, True, [32768, - 32768, 32768])"
    by (simp add: countingReader_Read_def zeroReader_Read_def)
  have a': "doUpload (PutResponse 200 [32768, 32768] []) 67108864 = (65536, False, [32768, 32768])"
    by (simp add: countingReader_Read_def zeroReader_Read_def)
  have b: "doUpload (PutTransportError [4096] [4096]) 5000 = (4096, True, [4096, 904])"
    by (simp add: countingReader_Read_def zeroReader_Read_def)
  have c: "doUpload (PutResponse 503 [4096, 4096] []) 5000 = (0, True, [4096, 904, - 5000])"
    by (simp add: countingReader_Read_def zeroReader_Read_def)
  have k: "upload_kept (PutResponse 503 [32768] [32768]) 67108864 = 32768"
    by (simp add: upload_kept_def upload_sent_def)
  have "TotalBytes (Run late_net 67108864 Upload 2) =
      wrap64 (sum_list (map (\<lambda>i. upload_kept (net_put late_net i) 67108864) [0 ..< nat 2]))"
    using doUpload_rollback [where nw = late_net and maxBytes = 67108864 and threads = 2
        and status = 503 and ps = "[32768]" and late = "[32768]"]
    by blast
  also have "\<dots> = 98304"
    by (simp add: upt_rec late_net_def upload_kept_def upload_sent_def wrap64_def)
  finally have t: "TotalBytes (Run late_net 67108864 Upload 2) = 98304" .
  have f: "FaultCount (Run late_net 67108864 Upload 2) = 1"
    using a a' by (simp add: Run_FaultCount run_worker_def late_net_def upt_rec wrap32_def)
  have "TotalBytes (Run reject_net 5000 Upload 2) =
      wrap64 (sum_list (map (\<lambda>i. upload_kept (net_put reject_net i) 5000) [0 ..< nat 2]))"
    using doUpload_rollback [where nw = reject_net and maxBytes = 5000 and threads = 2
        and status = 503 and ps = "[4096, 4096]" and late = "[]"]
    by blast
  also have "\<dots> = 5000"
    by (simp add: upt_rec reject_net_def upload_kept_def upload_sent_def wrap64_def)
  finally show ?thesis using a a' b c k t f by simp
qed

text \<open>
  C2, as the code has it. \<open>Mbps\<close> is \<open>float64(total) * 8 / (secs * 1000000)\<close> in
  \<open>float64\<close> arithmetic, where \<open>secs\<close> is \<open>Duration.Seconds()\<close> when the measured
  duration is positive and 1 when it is zero or negative; the divisor \<open>secs * 1000000\<close>
  is positive, so the division is never by zero. This \<open>secs\<close> is the maximum of the
  measured seconds and 1 only when the duration is at most 0 or at least one second: a
  run shorter than one second is divided by its own duration.
\<close>

theorem Run_Mbps:
  "Mbps (Run nw maxBytes dir threads) =
     f64_div (f64_mul (f64_of_int (TotalBytes (Run nw maxBytes dir threads))) 8)
             (f64_mul (elapsed_seconds (Duration (Run nw maxBytes dir threads))) 1000000) \<and>
   elapsed_seconds d = (if d \<le> 0 then 1 else Seconds d) \<and>
   0 < f64_mul (elapsed_seconds d) 1000000 \<and>
   ((elapsed_seconds d = max (Seconds d) 1) = (d \<le> 0 \<or> 1 \<le> Seconds d))"
proof -
  have "(elapsed_seconds d = max (Seconds d) 1) = (d \<le> 0 \<or> 1 \<le> Seconds d)"
    using Seconds_nonpos [of d] by (auto simp: elapsed_seconds_eq max_def)
  then show ?thesis
    using Run_Mbps_eq [of nw maxBytes dir threads] elapsed_seconds_eq [of d] Mbps_divisor_pos [of d]
    by blast
qed

text \<open>
  C2 as stated fails: four workers that each download 250000 bytes in a run of half a
  second give 16 Mbps, where the stated formula (divisor \<open>max(0.5, 1) = 1\<close>) gives 8.
  Every \<open>float64\<close> operation of this run is exact.
\<close>

theorem Run_Mbps_half_second:
  "TotalBytes (Run fast_net 250000 Download 4) = 1000000 \<and>
   Duration (Run fast_net 250000 Download 4) = 500000000 \<and>
   Mbps (Run fast_net 250000 Download 4) = 16 \<and>
   claimed_Mbps (Run fast_net 250000 Download 4) = 8 \<and>
   Mbps (Run fast_net 250000 Download 4) \<noteq> claimed_Mbps (Run fast_net 250000 Download 4)"
proof -
  have w: "run_worker fast_net Download 250000 i = (250000, False, [250000])" for i
    by (simp add: run_worker_def fast_net_def count_chunk_def wrap64_def)
  have t: "TotalBytes (Run fast_net 250000 Download 4) = 1000000"
    by (simp add: Run_TotalBytes upt_4 w wrap64_def)
  have d: "Duration (Run fast_net 250000 Download 4) = 500000000"
    by (simp add: Run_Duration fast_net_def)
  have e: "elapsed_seconds 500000000 = 1 / 2"
    by (simp add: elapsed_seconds_def Seconds_half)
  have m: "Mbps (Run fast_net 250000 Download 4) = 16"
    unfolding Run_Mbps_eq t d e by (rule Mbps_half_second)
  have c: "claimed_Mbps (Run fast_net 250000 Download 4) = 8"
    by (simp add: claimed_Mbps_def t d Seconds_half)
  from t d m c show ?thesis by simp
qed

text \<open>
  C3, as the code has it. With four download workers, a cap of 1000000 bytes and an
  endpoint that answers every worker with status 200 and a body of at least 1000000 bytes
  read without error in chunks of at most 256 KiB, no worker is faulted and every worker
  counts between its own cap and its cap plus 262143, so \<open>TotalBytes\<close> lies between
  4000000 and 4 * 1262143 for every interleaving; it is exactly 4000000 when every body
  holds exactly 1000000 bytes.
\<close>

theorem Run_four_downloads:
  assumes "\<forall>i < 4. \<exists>b. net_get nw i = GetResponse 200 b \<and> ample_body 1000000 b"
  shows "FaultCount (Run nw 1000000 Download 4) = 0 \<and>
         \<not> HadFault (Run nw 1000000 Download 4) \<and>
         4000000 \<le> TotalBytes (Run nw 1000000 Download 4) \<and>
         TotalBytes (Run nw 1000000 Download 4) \<le> 4 * (1000000 + 262143) \<and>
         ((\<forall>i < 4. \<exists>b. net_get nw i = GetResponse 200 b \<and>
              int (sum_list (reads b) + last_n b) = 1000000) \<longrightarrow>
          TotalBytes (Run nw 1000000 Download 4) = 4000000)"
proof -
  have w: "\<exists>t ds b. net_get nw i = GetResponse 200 b \<and> run_worker nw Download 1000000 i = (t, False, ds) \<and>
      sum_list ds = t \<and> 1000000 \<le> t \<and> t \<le> 1262143 \<and> t \<le> int (sum_list (reads b) + last_n b)"
    if "i < 4" for i
  proof -
    from assms that obtain b where b: "net_get nw i = GetResponse 200 b" "ample_body 1000000 b"
      by blast
    have "\<exists>t ds. doDownload (GetResponse 200 b) 1000000 = (t, False, ds) \<and> sum_list ds = t \<and>
           1000000 \<le> t \<and> t \<le> 1000000 + 262143 \<and> t \<le> int (sum_list (reads b) + last_n b)"
      by (rule doDownload_ample [OF _ _ _ b(2)]) simp_all
    with b(1) show ?thesis by (auto simp: run_worker_def)
  qed
  from w [of 0] obtain t0 ds0 b0 where w0: "net_get nw 0 = GetResponse 200 b0"
    "run_worker nw Download 1000000 0 = (t0, False, ds0)" "sum_list ds0 = t0" "1000000 \<le> t0" "t0 \<le> 1262143"
    "t0 \<le> int (sum_list (reads b0) + last_n b0)" by auto
  from w [of 1] obtain t1 ds1 b1 where w1: "net_get nw 1 = GetResponse 200 b1"
    "run_worker nw Download 1000000 1 = (t1, False, ds1)" "sum_list ds1 = t1" "1000000 \<le> t1" "t1 \<le> 1262143"
    "t1 \<le> int (sum_list (reads b1) + last_n b1)" by auto
  from w [of 2] obtain t2 ds2 b2 where w2: "net_get nw 2 = GetResponse 200 b2"
    "run_worker nw Download 1000000 2 = (t2, False, ds2)" "sum_list ds2 = t2" "1000000 \<le> t2" "t2 \<le> 1262143"
    "t2 \<le> int (sum_list (reads b2) + last_n b2)" by auto
  from w [of 3] obtain t3 ds3 b3 where w3: "net_get nw 3 = GetResponse 200 b3"
    "run_worker nw Download 1000000 3 = (t3, False, ds3)" "sum_list ds3 = t3" "1000000 \<le> t3" "t3 \<le> 1262143"
    "t3 \<le> int (sum_list (reads b3) + last_n b3)" by auto
  have tb: "TotalBytes (Run nw 1000000 Download 4) = wrap64 (t0 + t1 + t2 + t3)"
    using w0(2,3) w1(2,3) w2(2,3) w3(2,3) by (simp add: Run_TotalBytes upt_4 add.assoc)
  have "wrap64 (t0 + t1 + t2 + t3) = t0 + t1 + t2 + t3"
    using w0(4,5) w1(4,5) w2(4,5) w3(4,5) by (intro wrap64_id) simp_all
  with tb have total: "TotalBytes (Run nw 1000000 Download 4) = t0 + t1 + t2 + t3"
    by simp
  have fc: "FaultCount (Run nw 1000000 Download 4) = 0"
    using w0(2) w1(2) w2(2) w3(2) by (simp add: Run_FaultCount upt_4 wrap32_def)
  have exact: "TotalBytes (Run nw 1000000 Download 4) = 4000000"
    if e: "\<forall>i < 4. \<exists>b. net_get nw i = GetResponse 200 b \<and> int (sum_list (reads b) + last_n b) = 1000000"
  proof -
    from e [rule_format, of 0] w0(1,6) have "t0 \<le> 1000000" by auto
    moreover from e [rule_format, of 1] w1(1,6) have "t1 \<le> 1000000" by auto
    moreover from e [rule_format, of 2] w2(1,6) have "t2 \<le> 1000000" by auto
    moreover from e [rule_format, of 3] w3(1,6) have "t3 \<le> 1000000" by auto
    ultimately show ?thesis
      using total w0(4) w1(4) w2(4) w3(4) by simp
  qed
  from fc total exact w0(4,5) w1(4,5) w2(4,5) w3(4,5) show ?thesis
    by (simp add: Run_HadFault)
qed

theorem Run_four_downloads_witness:
  "net_get exact_net 3 = GetResponse 200 (Body [250000, 250000, 250000] 250000 EOF) \<and>
   ample_body 1000000 (Body [250000, 250000, 250000] 250000 EOF) \<and>
   FaultCount (Run exact_net 1000000 Download 4) = 0 \<and>
   TotalBytes (Run exact_net 1000000 Download 4) = 4000000"
proof -
  have h: "\<forall>i < 4. \<exists>b. net_get exact_net i = GetResponse 200 b \<and> ample_body 1000000 b"
    by (simp add: exact_net_def ample_body_def)
  have e: "\<forall>i < 4. \<exists>b. net_get exact_net i = GetResponse 200 b \<and>
      int (sum_list (reads b) + last_n b) = 1000000"
    by (simp add: exact_net_def)
  have "net_get exact_net 3 = GetResponse 200 (Body [250000, 250000, 250000] 250000 EOF)"
    "ample_body 1000000 (Body [250000, 250000, 250000] 250000 EOF)"
    by (simp_all add: exact_net_def ample_body_def)
  with Run_four_downloads [OF h] e show ?thesis by blast
qed

text \<open>
  C3 as stated fails: when the 2 MiB body arrives in full 256 KiB reads, every worker
  stops after its fourth read with 1048576 bytes counted, and \<open>TotalBytes\<close> is 4194304.
\<close>

theorem Run_four_downloads_overshoot:
  "TotalBytes (Run chunky_net 1000000 Download 4) = 4194304 \<and>
   FaultCount (Run chunky_net 1000000 Download 4) = 0 \<and>
   TotalBytes (Run chunky_net 1000000 Download 4) \<noteq> 4000000"
proof -
  have w: "run_worker chunky_net Download 1000000 i =
      (1048576, False, [262144, 262144, 262144, 262144])" for i
    by (simp add: run_worker_def chunky_net_def count_chunk_def wrap64_def)
  have t: "TotalBytes (Run chunky_net 1000000 Download 4) = 4194304"
    by (simp add: Run_TotalBytes upt_4 w wrap64_def)
  have f: "FaultCount (Run chunky_net 1000000 Download 4) = 0"
    by (simp add: Run_FaultCount upt_4 w wrap32_def)
  from t f show ?thesis by simp
qed

text \<open>
  C4, as the code has it. A download attempt that fails before a body is read (the
  request cannot be built, \<open>client.Do\<close> returns an error, or the status is 400 or more) is
  faulted, reports 0 bytes and has added nothing to the shared counter. Once the body is
  being read, every addition to the shared counter is positive and the reported bytes are
  exactly the additions made (nothing is ever subtracted); the attempt is faulted if and
  only if the body ends in a read error other than EOF with the reported bytes below the
  cap, and an attempt that ends below the cap, faulted or not, has counted every byte
  read. In particular a body that holds fewer bytes than the cap and ends in a read error
  other than EOF leaves the attempt faulted with all the bytes read reported, not 0, and
  the same body ending in EOF leaves it not faulted. The counter that \<open>Run\<close> reads at
  the end of a download pass is the wrapped sum of all additions of all workers, faulted
  or not.
\<close>

theorem doDownload_faults:
  "doDownload GetRequestError maxBytes = (0, True, []) \<and>
   doDownload GetTransportError maxBytes = (0, True, []) \<and>
   (400 \<le> status \<longrightarrow> doDownload (GetResponse status b) maxBytes = (0, True, [])) \<and>
   (status < 400 \<and> doDownload (GetResponse status b) maxBytes = (t, fault, ds) \<longrightarrow>
      (\<forall>d \<in> set ds. 0 < d) \<and> t = foldl AddInt64 0 ds \<and>
      fault = (last_err b = ReadFailure \<and> t < maxBytes) \<and>
      (t < maxBytes \<longrightarrow> ds = map int (filter (\<lambda>n. 0 < n) (reads b @ [last_n b])))) \<and>
   (status < 400 \<and> int (sum_list (reads b) + last_n b) < maxBytes \<and> maxBytes < 2 ^ 63 \<longrightarrow>
      doDownload (GetResponse status b) maxBytes =
        (int (sum_list (reads b) + last_n b), last_err b = ReadFailure,
         map int (filter (\<lambda>n. 0 < n) (reads b @ [last_n b])))) \<and>
   TotalBytes (Run nw maxBytes Download threads) =
     wrap64 (sum_list (map (\<lambda>i. sum_list (snd (snd (doDownload (net_get nw i) maxBytes))))
                        [0 ..< nat threads]))"
proof -
  obtain ns fin_n fin_err where b: "b = Body ns fin_n fin_err"
    by (cases b) auto
  have A: "(\<forall>d \<in> set ds. 0 < d) \<and> t = foldl AddInt64 0 ds \<and>
      fault = (last_err b = ReadFailure \<and> t < maxBytes) \<and>
      (t < maxBytes \<longrightarrow> ds = map int (filter (\<lambda>n. 0 < n) (reads b @ [last_n b])))"
    if s: "status < 400" and r: "doDownload (GetResponse status b) maxBytes = (t, fault, ds)"
  proof -
    from b s r have l: "download_loop maxBytes 0 ns fin_n fin_err = (t, fault, ds)"
      by simp
    from download_loop_no_rollback [OF l]
    have 1: "\<forall>d \<in> set ds. 0 < d" and 2: "t = foldl AddInt64 0 ds"
      by auto
    from download_loop_fault_iff [OF l] b
    have 3: "fault = (last_err b = ReadFailure \<and> t < maxBytes)"
      and 4: "t < maxBytes \<longrightarrow> ds = map int (filter (\<lambda>n. 0 < n) (reads b @ [last_n b]))"
      by simp_all
    from 1 2 3 4 show ?thesis by blast
  qed
  have B: "doDownload (GetResponse status b) maxBytes =
        (int (sum_list (reads b) + last_n b), last_err b = ReadFailure,
         map int (filter (\<lambda>n. 0 < n) (reads b @ [last_n b])))"
    if s: "status < 400" and u: "int (sum_list (reads b) + last_n b) < maxBytes"
      and m: "maxBytes < 2 ^ 63"
  proof -
    from m have m': "maxBytes \<le> 2 ^ 63" by simp
    from u b have "0 + int (sum_list ns + fin_n) < maxBytes" by simp
    from download_loop_below_cap [OF m' _ this, of fin_err] b s show ?thesis
      by simp
  qed
  have C: "doDownload (GetResponse status b) maxBytes = (0, True, [])" if "400 \<le> status"
    using that b by simp
  from A B C show ?thesis
    using Run_download_total [of nw maxBytes threads] by simp
qed

theorem doDownload_faults_witness:
  "(400 :: int) \<le> 404 \<and> (200 :: int) < 400 \<and>
   doDownload (GetResponse 404 (Body [100] 0 EOF)) 1000 = (0, True, []) \<and>
   int (sum_list (reads (Body [100, 50] 0 ReadFailure)) + last_n (Body [100, 50] 0 ReadFailure)) < 1000 \<and>
   doDownload (GetResponse 200 (Body [100, 50] 0 ReadFailure)) 1000 = (150, True, [100, 50]) \<and>
   doDownload (GetResponse 200 (Body [100, 50] 0 EOF)) 1000 = (150, False, [100, 50]) \<and>
   (150 :: int) = foldl AddInt64 0 [100, 50] \<and>
   TotalBytes (Run flaky_net 1000 Download 1) = 150 \<and>
   FaultCount (Run flaky_net 1000 Download 1) = 1"
proof -
  from doDownload_faults [where maxBytes = 1000 and status = 404 and b = "Body [100] 0 EOF"
      and t = 0 and fault = True and ds = "[]" and nw = flaky_net and threads = 1]
  have a: "doDownload (GetResponse 404 (Body [100] 0 EOF)) 1000 = (0, True, [])"
    by simp
  from doDownload_faults [where maxBytes = 1000 and status = 200
      and b = "Body [100, 50] 0 ReadFailure" and t = 150 and fault = True and ds = "[100, 50]"
      and nw = flaky_net and threads = 1]
  have r: "doDownload (GetResponse 200 (Body [100, 50] 0 ReadFailure)) 1000 = (150, True, [100, 50])"
    by (simp del: doDownload.simps)
  from doDownload_faults [where maxBytes = 1000 and status = 200
      and b = "Body [100, 50] 0 EOF" and t = 150 and fault = False and ds = "[100, 50]"
      and nw = flaky_net and threads = 1]
  have e: "doDownload (GetResponse 200 (Body [100, 50] 0 EOF)) 1000 = (150, False, [100, 50])"
    by (simp del: doDownload.simps)
  from doDownload_faults [where maxBytes = 1000 and status = 200
      and b = "Body [100, 50] 0 ReadFailure" and t = 150 and fault = True and ds = "[100, 50]"] r
  have f: "(150 :: int) = foldl AddInt64 0 [100, 50]"
    by (simp del: doDownload.simps)
  have "TotalBytes (Run flaky_net 1000 Download 1) =
      wrap64 (sum_list (map (\<lambda>i. sum_list (snd (snd (doDownload (net_get flaky_net i) 1000))))
                         [0 ..< nat 1]))"
    using doDownload_faults [where maxBytes = 1000 and nw = flaky_net and threads = 1
        and status = 200 and b = "Body [100, 50] 0 ReadFailure" and t = 150 and fault = True
        and ds = "[100, 50]"]
    by blast
  also have "\<dots> = 150"
    by (simp add: flaky_net_def count_chunk_def wrap64_def)
  finally have t: "TotalBytes (Run flaky_net 1000 Download 1) = 150" .
  have c: "FaultCount (Run flaky_net 1000 Download 1) = 1"
    by (simp add: Run_FaultCount run_worker_def flaky_net_def count_chunk_def wrap64_def wrap32_def)
  from a r e f t c show ?thesis by simp
qed

text \<open>
  C4 as stated fails: a body that delivers 100 bytes and then fails with a read error
  leaves the worker faulted with 100 bytes reported, not 0.
\<close>

theorem doDownload_read_failure_counts:
  "doDownload (GetResponse 200 (Body [100] 0 ReadFailure)) 1000 = (100, True, [100])"
  by (simp add: count_chunk_def wrap64_def)

text \<open>
  C10. A download attempt with a status below 400, a positive cap within the \<open>int64\<close>
  range and reads of at most 256 KiB each adds to the shared counter exactly the bytes it
  reports; these never exceed \<open>maxBytes + 262143\<close>. The additions are the positive read
  sizes of an initial segment of the reads, each added whole, and the attempt stops at
  the first one that brings the total to the cap: the additions before the last one sum
  to less than \<open>maxBytes\<close>. When the reads supply at least \<open>maxBytes\<close> bytes the total
  reaches \<open>maxBytes\<close> and the attempt is not faulted.
\<close>

theorem doDownload_cap:
  assumes "status < 400" and "0 < maxBytes" and "maxBytes + 262144 \<le> 2 ^ 63"
    and "\<forall>n \<in> set (ns @ [fin_n]). n \<le> 262144"
    and "doDownload (GetResponse status (Body ns fin_n fin_err)) maxBytes = (t, fault, ds)"
  shows "sum_list ds = t \<and> t \<le> maxBytes + 262143 \<and> (\<forall>d \<in> set ds. 0 < d) \<and>
         (\<exists>k. ds = map int (filter (\<lambda>n. 0 < n) (take k (ns @ [fin_n])))) \<and>
         (ds \<noteq> [] \<longrightarrow> sum_list (butlast ds) < maxBytes) \<and>
         (maxBytes \<le> int (sum_list ns + fin_n) \<longrightarrow> maxBytes \<le> t \<and> \<not> fault)"
proof -
  from assms(1,5) have l: "download_loop maxBytes 0 ns fin_n fin_err = (t, fault, ds)"
    by simp
  from assms(4) have small: "\<forall>n \<in> set ns. n \<le> 262144" "fin_n \<le> 262144"
    by auto
  from download_loop_sum [OF assms(3) small(2) _ assms(2) small(1) l]
  have 1: "sum_list ds = t" "t \<le> maxBytes + 262143"
    by auto
  from download_loop_no_rollback [OF l]
  have 2: "\<forall>d \<in> set ds. 0 < d" "\<exists>k. ds = map int (filter (\<lambda>n. 0 < n) (take k (ns @ [fin_n])))"
    by auto
  from download_loop_reaches_cap [OF assms(3) small(2) _ assms(2) small(1) l]
  have 3: "ds \<noteq> [] \<longrightarrow> sum_list (butlast ds) < maxBytes"
    "maxBytes \<le> int (sum_list ns + fin_n) \<longrightarrow> maxBytes \<le> t \<and> \<not> fault"
    by auto
  from 1 2 3 show ?thesis by blast
qed

theorem doDownload_cap_witness:
  "doDownload (GetResponse 200 (Body [262144, 262144, 262144, 262144, 262144] 0 EOF)) 1000000
     = (1048576, False, [262144, 262144, 262144, 262144]) \<and>
   (1048576 :: int) \<le> 1000000 + 262143 \<and> (1000000 :: int) \<le> 1048576 \<and>
   sum_list (butlast [262144, 262144, 262144, 262144]) < (1000000 :: int)"
proof -
  have r: "doDownload (GetResponse 200 (Body [262144, 262144, 262144, 262144, 262144] 0 EOF)) 1000000
     = (1048576, False, [262144, 262144, 262144, 262144])"
    by (simp add: count_chunk_def wrap64_def)
  have "sum_list [262144, 262144, 262144, 262144] = (1048576 :: int) \<and>
      (1048576 :: int) \<le> 1000000 + 262143 \<and>
      (\<forall>d \<in> set [262144, 262144, 262144, 262144 :: int]. 0 < d) \<and>
      (\<exists>k. [262144, 262144, 262144, 262144] =
         map int (filter (\<lambda>n. 0 < n) (take k ([262144, 262144, 262144, 262144, 262144] @ [0])))) \<and>
      ([262144, 262144, 262144, 262144 :: int] \<noteq> [] \<longrightarrow>
         sum_list (butlast [262144, 262144, 262144, 262144]) < (1000000 :: int)) \<and>
      ((1000000 :: int) \<le> int (sum_list [262144, 262144, 262144, 262144, 262144] + 0) \<longrightarrow>
         (1000000 :: int) \<le> 1048576 \<and> \<not> False)"
    by (rule doDownload_cap [OF _ _ _ _ r]) simp_all
  with r show ?thesis by simp
qed

section \<open>The claims about the resolver\<close>

text \<open>
  C5. Whatever \<open>json.Unmarshal\<close> and \<open>net.ParseIP\<close> do, the list \<open>resolveDoH\<close> makes of
  a response body is the first-seen de-duplication of one tier's candidates: of the
  structured tier's when it has any, of the matches of \<open>ipv4Re\<close> in the raw body
  otherwise. The list therefore holds each distinct candidate exactly once
  (\<open>distinct\<close>, same set), in the order of first occurrence. The body of three lines
  \<open>1.2.3.4\<close>, \<open>5.6.7.8\<close>, \<open>1.2.3.4\<close>, which is not JSON, yields \<open>1.2.3.4\<close>, \<open>5.6.7.8\<close>.
\<close>

theorem resolveDoH_dedup:
  "resolveDoH U P (DohBody body) =
     (if structured_candidates U P body \<noteq> [] then first_seen (structured_candidates U P body)
      else first_seen (ipv4Re_FindAllString body)) \<and>
   distinct (resolveDoH U P resp) \<and>
   distinct (first_seen xs) \<and> set (first_seen xs) = set xs \<and>
   (U ''1.2.3.4\<newline>5.6.7.8\<newline>1.2.3.4\<newline>'' = None \<longrightarrow>
      resolveDoH U P (DohBody ''1.2.3.4\<newline>5.6.7.8\<newline>1.2.3.4\<newline>'') = [''1.2.3.4'', ''5.6.7.8''])"
proof -
  have "resolveDoH U P (DohBody ''1.2.3.4\<newline>5.6.7.8\<newline>1.2.3.4\<newline>'') = [''1.2.3.4'', ''5.6.7.8'']"
    if "U ''1.2.3.4\<newline>5.6.7.8\<newline>1.2.3.4\<newline>'' = None"
    unfolding resolveDoH_body using that
    by (simp add: structured_candidates_def FindAll_example)
  then show ?thesis
    using resolveDoH_body [of U P body] resolveDoH_distinct [of U P resp]
      distinct_first_seen [of xs] set_first_seen [of xs]
    by blast
qed

theorem resolveDoH_dedup_witness:
  "resolveDoH (\<lambda>body. None) sample_ParseIP_ok (DohBody ''1.2.3.4\<newline>5.6.7.8\<newline>1.2.3.4\<newline>'')
     = [''1.2.3.4'', ''5.6.7.8'']"
  using resolveDoH_dedup [where U = "\<lambda>body. None" and P = sample_ParseIP_ok]
  by blast

text \<open>
  C6 does not hold of the code. What the structured tier guarantees is that every entry
  it returns is a trimmed \<open>data\<close> field that \<open>net.ParseIP\<close> accepts, and \<open>net.ParseIP\<close>
  accepts IPv6 text: an answer whose data is \<open>2001:db8::1\<close> is returned as a candidate
  although it is not an IPv4 address. The sibling \<open>resolveSystem\<close>, which also requires
  a dot, drops the same address.
\<close>

theorem resolveDoH_keeps_ipv6:
  "(structured_candidates U P body \<noteq> [] \<longrightarrow>
      (\<forall>ip \<in> set (resolveDoH U P (DohBody body)). P ip)) \<and>
   (P ''2001:db8::1'' \<and> U body = Some [''2001:db8::1''] \<longrightarrow>
      resolveDoH U P (DohBody body) = [''2001:db8::1''] \<and>
      \<not> is_ipv4 ''2001:db8::1'' \<and>
      resolveSystem P (Some [''2001:db8::1'']) = [])"
proof -
  have t: "TrimSpace ''2001:db8::1'' = ''2001:db8::1''"
    by code_simp
  have n: "\<not> is_ipv4 ''2001:db8::1''"
    by code_simp
  have d: "CHR ''.'' \<notin> set ''2001:db8::1''"
    by simp
  have 1: "\<forall>ip \<in> set (resolveDoH U P (DohBody body)). P ip"
    if "structured_candidates U P body \<noteq> []"
  proof -
    from that have "set (resolveDoH U P (DohBody body)) = set (structured_candidates U P body)"
      by (simp add: resolveDoH_body set_first_seen del: resolveDoH.simps(3))
    then show ?thesis
      by (cases "U body") (auto simp: structured_candidates_def)
  qed
  have 2: "resolveDoH U P (DohBody body) = [''2001:db8::1''] \<and>
      \<not> is_ipv4 ''2001:db8::1'' \<and> resolveSystem P (Some [''2001:db8::1'']) = []"
    if "P ''2001:db8::1'' \<and> U body = Some [''2001:db8::1'']"
    using that t n d by (simp add: resolveDoH_body structured_candidates_def resolveSystem_def
        del: resolveDoH.simps(3))
  from 1 2 show ?thesis by blast
qed

theorem resolveDoH_keeps_ipv6_witness:
  \<open>sample_ParseIP_ok ''2001:db8::1'' \<and>
   resolveDoH (\<lambda>body. Some [''2001:db8::1'']) sample_ParseIP_ok
     (DohBody ''{"Answer":[{"data":"2001:db8::1"}]}'') = [''2001:db8::1'']\<close>
proof -
  have s: "sample_ParseIP_ok ''2001:db8::1''"
    by (simp add: sample_ParseIP_ok_def)
  with resolveDoH_keeps_ipv6 [where P = sample_ParseIP_ok and U = "\<lambda>body. Some [''2001:db8::1'']"]
  show ?thesis by simp
qed

text \<open>
  C8, as the code has it. A request error, a decode error and a status other than
  \<open>success\<close> give \<open>lookup failed\<close>. Otherwise the description is a location part followed
  by an ASN part. The location part is the city, then a comma and the region when the
  region is non-empty and differs from the city, then a comma and the country when that is
  non-empty; when all three fields are empty it is \<open>unknown location\<close>, whether or not an
  ASN is present. The ASN part is the AS field (the Org field when AS is empty) in
  parentheses after a space, and is left out when both are empty. Tokyo, Tokyo, Japan
  with AS \<open>AS1234 Example\<close> gives \<open>Tokyo, Japan (AS1234 Example)\<close>.
\<close>

theorem fetchIPDesc_desc:
  "fetchIPDesc GeoRequestError = ''lookup failed'' \<and>
   fetchIPDesc GeoTransportError = ''lookup failed'' \<and>
   fetchIPDesc GeoDecodeError = ''lookup failed'' \<and>
   (Status info \<noteq> ''success'' \<longrightarrow> fetchIPDesc (GeoDecoded info) = ''lookup failed'') \<and>
   (Status info = ''success'' \<longrightarrow>
      fetchIPDesc (GeoDecoded info) = desc_location info @ desc_asn info \<and>
      (City info = [] \<and> RegionName info = [] \<and> Country info = [] \<longrightarrow>
         desc_location info = ''unknown location'') \<and>
      (City info \<noteq> [] \<or> RegionName info \<noteq> [] \<or> Country info \<noteq> [] \<longrightarrow>
         desc_location info =
           City info
           @ (if RegionName info \<noteq> [] \<and> RegionName info \<noteq> City info
              then '', '' @ RegionName info else [])
           @ (if Country info \<noteq> [] then '', '' @ Country info else [])) \<and>
      (AS info = [] \<and> Org info = [] \<longrightarrow> desc_asn info = []) \<and>
      (AS info \<noteq> [] \<longrightarrow> desc_asn info = '' ('' @ AS info @ '')'') \<and>
      (AS info = [] \<and> Org info \<noteq> [] \<longrightarrow> desc_asn info = '' ('' @ Org info @ '')'')) \<and>
   fetchIPDesc (GeoDecoded tokyo_info) = ''Tokyo, Japan (AS1234 Example)''"
proof -
  have tokyo: "fetchIPDesc (GeoDecoded tokyo_info) = ''Tokyo, Japan (AS1234 Example)''"
    by (simp add: tokyo_info_def)
  have main: "fetchIPDesc (GeoDecoded info) = desc_location info @ desc_asn info"
    if "Status info = ''success''"
    using that by (simp add: desc_location_def desc_asn_def Let_def)
  have loc: "desc_location info =
           City info
           @ (if RegionName info \<noteq> [] \<and> RegionName info \<noteq> City info
              then '', '' @ RegionName info else [])
           @ (if Country info \<noteq> [] then '', '' @ Country info else [])"
    if "City info \<noteq> [] \<or> RegionName info \<noteq> [] \<or> Country info \<noteq> []"
    using that by (auto simp: desc_location_def Let_def)
  have unk: "desc_location info = ''unknown location''"
    if "City info = [] \<and> RegionName info = [] \<and> Country info = []"
    using that by (simp add: desc_location_def)
  have asn: "(AS info = [] \<and> Org info = [] \<longrightarrow> desc_asn info = []) \<and>
      (AS info \<noteq> [] \<longrightarrow> desc_asn info = '' ('' @ AS info @ '')'') \<and>
      (AS info = [] \<and> Org info \<noteq> [] \<longrightarrow> desc_asn info = '' ('' @ Org info @ '')'')"
    by (simp add: desc_asn_def)
  have fail: "fetchIPDesc (GeoDecoded info) = ''lookup failed''" if "Status info \<noteq> ''success''"
    using that by simp
  from tokyo main loc unk asn fail show ?thesis
    by (simp del: fetchIPDesc.simps(4))
qed

theorem fetchIPDesc_desc_witness:
  "Status tokyo_info = ''success'' \<and> AS tokyo_info \<noteq> [] \<and> City tokyo_info \<noteq> [] \<and>
   fetchIPDesc (GeoDecoded tokyo_info) = desc_location tokyo_info @ desc_asn tokyo_info \<and>
   desc_location tokyo_info = ''Tokyo, Japan'' \<and>
   desc_asn tokyo_info = '' (AS1234 Example)'' \<and>
   Status (tokyo_info\<lparr>Status := ''fail''\<rparr>) \<noteq> ''success'' \<and>
   fetchIPDesc (GeoDecoded (tokyo_info\<lparr>Status := ''fail''\<rparr>)) = ''lookup failed''"
proof -
  have s: "Status tokyo_info = ''success''" "AS tokyo_info \<noteq> []" "City tokyo_info \<noteq> []"
    "Status (tokyo_info\<lparr>Status := ''fail''\<rparr>) \<noteq> ''success''"
    by (simp_all add: tokyo_info_def)
  from fetchIPDesc_desc [of tokyo_info] s
  have a: "fetchIPDesc (GeoDecoded tokyo_info) = desc_location tokyo_info @ desc_asn tokyo_info"
    by blast
  from fetchIPDesc_desc [of "tokyo_info\<lparr>Status := ''fail''\<rparr>"] s(4)
  have b: "fetchIPDesc (GeoDecoded (tokyo_info\<lparr>Status := ''fail''\<rparr>)) = ''lookup failed''"
    by blast
  have c: "desc_location tokyo_info = ''Tokyo, Japan''" "desc_asn tokyo_info = '' (AS1234 Example)''"
    by (simp_all add: desc_location_def desc_asn_def tokyo_info_def)
  from s a b c show ?thesis by simp
qed

text \<open>
  C8 as stated fails: with all locality fields empty and an ASN present the description
  is \<open>unknown location (AS1234 Example)\<close>, not \<open>unknown location\<close>; it is exactly
  \<open>unknown location\<close> when the ASN is absent as well.
\<close>

theorem fetchIPDesc_unknown_location_with_asn:
  "City nowhere_info = [] \<and> RegionName nowhere_info = [] \<and> Country nowhere_info = [] \<and>
   AS nowhere_info = ''AS1234 Example'' \<and>
   fetchIPDesc (GeoDecoded nowhere_info) = ''unknown location (AS1234 Example)'' \<and>
   fetchIPDesc (GeoDecoded nowhere_info) \<noteq> ''unknown location'' \<and>
   fetchIPDesc (GeoDecoded (nowhere_info\<lparr>AS := []\<rparr>)) = ''unknown location''"
  by (simp add: nowhere_info_def)

text \<open>
  C9. The prompt reads one line and trims it. A blank line selects index 0 without a
  warning. A line that \<open>strconv.Atoi\<close> reads as an integer \<open>n\<close> with \<open>1 \<le> n \<le> count\<close>
  selects index \<open>n - 1\<close> without a warning; in particular the decimal numeral of such
  an \<open>n\<close>, followed by a newline, does. Every other line (not an integer, or out of
  range) selects index 0 and emits exactly one warning, \<open>Invalid selection '...',
  fallback to 1.\<close>; the prompt is not repeated.
\<close>

theorem promptChoice_selection:
  "(TrimSpace input = [] \<longrightarrow> promptChoice count input = (0, [])) \<and>
   (Atoi (TrimSpace input) = Inr n \<and> 1 \<le> n \<and> n \<le> count \<longrightarrow>
      promptChoice count input = (n - 1, [])) \<and>
   (1 \<le> k \<and> int k \<le> count \<and> count < 2 ^ 63 \<longrightarrow>
      promptChoice count (decimal k @ [CHR 0x0A]) = (int k - 1, [])) \<and>
   (TrimSpace input \<noteq> [] \<and> \<not> (\<exists>m. Atoi (TrimSpace input) = Inr m \<and> 1 \<le> m \<and> m \<le> count) \<longrightarrow>
      promptChoice count input = (0, [invalid_selection (TrimSpace input)]))"
proof -
  have a: "Atoi [] = Inl ErrSyntax"
    by (simp add: Atoi_def)
  have 1: "promptChoice count input = (n - 1, [])"
    if "Atoi (TrimSpace input) = Inr n \<and> 1 \<le> n \<and> n \<le> count"
  proof -
    from that a have "TrimSpace input \<noteq> []" by auto
    with that show ?thesis by (simp add: promptChoice_def Let_def)
  qed
  have 2: "promptChoice count input = (0, [invalid_selection (TrimSpace input)])"
    if "TrimSpace input \<noteq> [] \<and> \<not> (\<exists>m. Atoi (TrimSpace input) = Inr m \<and> 1 \<le> m \<and> m \<le> count)"
    using that by (cases "Atoi (TrimSpace input)") (auto simp: promptChoice_def Let_def)
  have 3: "promptChoice count (decimal k @ [CHR 0x0A]) = (int k - 1, [])"
    if "1 \<le> k \<and> int k \<le> count \<and> count < 2 ^ 63"
    using that by (intro promptChoice_decimal) simp_all
  from 1 2 3 show ?thesis by (simp add: promptChoice_def)
qed

theorem promptChoice_selection_witness:
  "promptChoice 3 ''\<newline>'' = (0, []) \<and>
   promptChoice 3 (decimal 3 @ [CHR 0x0A]) = (2, []) \<and>
   promptChoice 3 '' 2\<newline>'' = (1, []) \<and>
   promptChoice 3 ''4\<newline>'' = (0, [''Invalid selection '' @ [CHR 0x27] @ ''4'' @ [CHR 0x27] @ '', fallback to 1.'']) \<and>
   promptChoice 3 ''abc\<newline>'' = (0, [''Invalid selection '' @ [CHR 0x27] @ ''abc'' @ [CHR 0x27] @ '', fallback to 1.''])"
proof -
  have t: "TrimSpace ''\<newline>'' = []" "TrimSpace '' 2\<newline>'' = ''2''" "TrimSpace ''4\<newline>'' = ''4''"
    "TrimSpace ''abc\<newline>'' = ''abc''"
    by code_simp+
  have a: "Atoi ''2'' = Inr 2" "Atoi ''4'' = Inr 4" "Atoi ''abc'' = Inl ErrSyntax"
    by code_simp+
  from promptChoice_selection [where input = "''\<newline>''" and count = 3] t(1)
  have 1: "promptChoice 3 ''\<newline>'' = (0, [])" by simp
  from promptChoice_selection [where input = "'' 2\<newline>''" and count = 3 and n = 2] t(2) a(1)
  have 2: "promptChoice 3 '' 2\<newline>'' = (1, [])" by simp
  from promptChoice_selection [where input = "''4\<newline>''" and count = 3] t(3) a(2)
  have 3: "promptChoice 3 ''4\<newline>'' = (0, [invalid_selection ''4''])" by simp
  from promptChoice_selection [where input = "''abc\<newline>''" and count = 3] t(4) a(3)
  have 4: "promptChoice 3 ''abc\<newline>'' = (0, [invalid_selection ''abc''])" by simp
  from promptChoice_selection [where k = 3 and count = 3]
  have 5: "promptChoice 3 (decimal 3 @ [CHR 0x0A]) = (2, [])" by simp
  from 1 2 3 4 5 show ?thesis by (simp add: invalid_selection_def)
qed

section \<open>The claims about ParseSize\<close>

text \<open>
  C7, evaluated on the code. The three examples hold: \<open>2G\<close> is 2000000000, \<open>2GiB\<close> is
  2147483648 and \<open>512\<close> is 512, each without error. The product is not exact in general:
  \<open>ParseSize\<close> multiplies in \<open>float64\<close> and truncates, and for \<open>1.001k\<close> the nearest
  \<open>float64\<close> to 1.001 times 1000 rounds to 1000.9999999999999, so the result is 1000
  where the number times the multiplier is 1001.
\<close>

theorem ParseSize_examples:
  "ParseSize ''2G'' = Inr (Converted 2000000000) \<and>
   ParseSize ''2GiB'' = Inr (Converted 2147483648) \<and>
   ParseSize ''512'' = Inr (Converted 512) \<and>
   ParseSize ''1.001k'' = Inr (Converted 1000)"
  by code_simp

end
